theory Spec2Isabelle
  imports Main "HOL-Library.Word"
begin

section \<open>Version chains of vchain.c\<close>

text \<open>
  The file \<^verbatim>\<open>src/backend/storage/vcluster/vchain.c\<close> keeps, for every primary key, a
  circular doubly linked list of version locators that hangs off a dummy node stored in
  the vchain hash table. The nodes live in a shared arena and are addressed by
  \<^verbatim>\<open>dsa_pointer\<close> offsets. This theory embeds the three operations of the file
  (\<^verbatim>\<open>VChainLookupLocator\<close>, \<^verbatim>\<open>VChainAppendLocator\<close>, \<^verbatim>\<open>VChainFixUpOne\<close>) and proves
  properties of them.
\<close>

subsection \<open>Data\<close>

type_synonym dsa_pointer = "64 word"
type_synonym TransactionId = "32 word"
type_synonym Timestamp = "64 word"
type_synonym PrimaryKey = "64 word"

text \<open>
  The flag of a locator. The header that declares it (\<^verbatim>\<open>storage/vchain.h\<close>) is outside
  vchain.c; the three values are the ones the code names. \<^verbatim>\<open>VL_WINNER\<close> is also the idle value.
\<close>

datatype VLocatorFlag = VL_WINNER | VL_APPEND | VL_DELETE

text \<open>The fields of \<^verbatim>\<open>VLocator\<close> that vchain.c reads or writes.\<close>

record VLocator =
  dsap :: dsa_pointer
  dsap_prev :: dsa_pointer
  dsap_next :: dsa_pointer
  xmin :: TransactionId
  flag :: VLocatorFlag
  timestamp :: Timestamp

text \<open>
  The arena maps every offset to the locator stored there; \<^verbatim>\<open>dsa_get_address\<close> is
  application. A native \<^verbatim>\<open>VLocator *\<close> is represented by the offset it was resolved from.
\<close>

type_synonym arena = "dsa_pointer \<Rightarrow> VLocator"

datatype LWLockMode = LW_EXCLUSIVE | LW_SHARED

record LWLock =
  lw_exclusive :: bool
  lw_shared :: nat

text \<open>
  The shared memory: the vchain hash table (primary key to dummy node), the arena and the
  partition locks of the hash table, indexed by partition.

  Modelled from the spec: the hash table module (\<^verbatim>\<open>VChainHashLookup\<close>,
  \<^verbatim>\<open>VChainHashInsert\<close>) is outside vchain.c. The spec describes it as a map
  from primary keys to the dummy nodes of their chains; \<^verbatim>\<open>VChainHashLookup\<close> is the lookup
  in that map.
\<close>

record shmem =
  vchain_hash :: "PrimaryKey \<rightharpoonup> dsa_pointer"
  arena :: arena
  locks :: "nat \<Rightarrow> LWLock"

subsection \<open>Observable actions\<close>

text \<open>
  Every call of the file that reaches outside the running function, and every access to
  a locator in the arena, is logged as an event, in program order.
\<close>

datatype link = L_prev | L_next

datatype event =
    EvLWLockAcquire nat LWLockMode
  | EvLWLockRelease nat
  | EvHashLookup PrimaryKey
  | EvHashInsert PrimaryKey
  | EvSetTimestamp
  | EvClearTimestamp
  | EvLoad dsa_pointer
  | EvStoreLink dsa_pointer link dsa_pointer
  | EvXchgFlag dsa_pointer VLocatorFlag VLocatorFlag
  | EvFetchAdd dsa_pointer
  | EvBarrier
  | EvStoreTimestamp dsa_pointer Timestamp
  | EvAssertFail

subsection \<open>VChainFixUpOne\<close>

text \<open>
  The primitive stores. Each one changes the arena and appends its event to the log.
\<close>

definition store_link :: "dsa_pointer \<Rightarrow> link \<Rightarrow> dsa_pointer \<Rightarrow> event list \<times> arena \<Rightarrow> event list \<times> arena" where
  "store_link p l v = (\<lambda>(tr, h).
     (tr @ [EvStoreLink p l v],
      (case l of
         L_prev \<Rightarrow> h(p := (h p)\<lparr>dsap_prev := v\<rparr>)
       | L_next \<Rightarrow> h(p := (h p)\<lparr>dsap_next := v\<rparr>))))"

definition pg_memory_barrier :: "event list \<times> arena \<Rightarrow> event list \<times> arena" where
  "pg_memory_barrier = (\<lambda>(tr, h). (tr @ [EvBarrier], h))"

definition store_timestamp :: "dsa_pointer \<Rightarrow> Timestamp \<Rightarrow> event list \<times> arena \<Rightarrow> event list \<times> arena" where
  "store_timestamp p ts = (\<lambda>(tr, h). (tr @ [EvStoreTimestamp p ts], h(p := (h p)\<lparr>timestamp := ts\<rparr>)))"

definition load :: "dsa_pointer \<Rightarrow> event list \<times> arena \<Rightarrow> event list \<times> arena" where
  "load p = (\<lambda>(tr, h). (tr @ [EvLoad p], h))"

text \<open>
  \<^verbatim>\<open>VChainFixUpOne(mid)\<close>: read both links of \<open>mid\<close>, store \<open>prev->dsap_next\<close>, store
  \<open>next->dsap_prev\<close>, barrier, stamp \<open>mid->timestamp\<close>. The value of
  \<^verbatim>\<open>GetCurrentTimestamp()\<close> is the parameter \<open>now\<close>.
\<close>

definition VChainFixUpOne :: "Timestamp \<Rightarrow> dsa_pointer \<Rightarrow> event list \<times> arena \<Rightarrow> event list \<times> arena" where
  "VChainFixUpOne now mid st =
     (let st1 = load mid st;
          d_prev = dsap_prev (snd st1 mid);
          d_next = dsap_next (snd st1 mid);
          st2 = store_link d_prev L_next d_next st1;
          st3 = store_link d_next L_prev d_prev st2;
          st4 = pg_memory_barrier st3
      in store_timestamp mid now st4)"

subsection \<open>VChainLookupLocator\<close>

text \<open>
  The result of a lookup: \<open>Found p\<close> is the return value \<^verbatim>\<open>true\<close> with
  \<^verbatim>\<open>*ret_locator\<close> set to the locator at \<open>p\<close>; \<open>NotFound\<close> is \<^verbatim>\<open>false\<close>.
\<close>

datatype lookup_result = Found dsa_pointer | NotFound

text \<open>
  The loop of the lookup. It compares the \<^verbatim>\<open>dsap\<close> fields of the current locator and of
  the dummy node, tests \<^verbatim>\<open>XidInMVCCSnapshot\<close> on the \<^verbatim>\<open>xmin\<close> of the locator and follows
  \<^verbatim>\<open>dsap_prev\<close>. On an arena whose \<^verbatim>\<open>dsap_prev\<close> links never lead back to the dummy node
  the loop does not end; the value is then \<open>None\<close>. The visibility test is the parameter
  \<open>XidInMVCCSnapshot\<close>; the function is outside vchain.c.
\<close>

partial_function (option) lookup_walk ::
  "(TransactionId \<Rightarrow> 'snap \<Rightarrow> bool) \<Rightarrow> 'snap \<Rightarrow> arena \<Rightarrow> dsa_pointer \<Rightarrow> dsa_pointer \<Rightarrow>
     event list \<Rightarrow> (event list \<times> lookup_result) option" where
  "lookup_walk XidInMVCCSnapshot snapshot h chain locator tr =
     (if dsap (h locator) \<noteq> dsap (h chain) then
        (if \<not> XidInMVCCSnapshot (xmin (h locator)) snapshot
         then Some (tr @ [EvLoad locator, EvClearTimestamp], Found locator)
         else lookup_walk XidInMVCCSnapshot snapshot h chain (dsap_prev (h locator))
                (tr @ [EvLoad locator]))
      else Some (tr @ [EvLoad locator, EvClearTimestamp], NotFound))"

text \<open>
  \<^verbatim>\<open>VChainLookupLocator(primary_key, snapshot, &ret_locator)\<close>. The partition of the key is
  the parameter \<open>part_of\<close> (the composition of \<^verbatim>\<open>VChainHashCode\<close> and
  \<^verbatim>\<open>VChainMappingPartitionLock\<close>, both outside vchain.c); \<^verbatim>\<open>VChainHashLookup\<close> is the
  lookup in the table. Taking and releasing the partition lock is logged; this sequential
  reading does not wait for it.
\<close>

definition VChainLookupLocator ::
  "(TransactionId \<Rightarrow> 'snap \<Rightarrow> bool) \<Rightarrow> (PrimaryKey \<Rightarrow> nat) \<Rightarrow> PrimaryKey \<Rightarrow> 'snap \<Rightarrow> shmem \<Rightarrow>
     (event list \<times> lookup_result) option" where
  "VChainLookupLocator XidInMVCCSnapshot part_of primary_key snapshot s =
     (let partition_lock = part_of primary_key;
          tr0 = [EvLWLockAcquire partition_lock LW_SHARED, EvHashLookup primary_key]
      in case vchain_hash s primary_key of
           None \<Rightarrow> Some (tr0 @ [EvLWLockRelease partition_lock], NotFound)
         | Some dsap_chain \<Rightarrow>
             (let tr1 = tr0 @ [EvLWLockRelease partition_lock, EvSetTimestamp, EvLoad dsap_chain];
                  chain = arena s dsap_chain
              in if dsap_prev chain = dsap chain
                 then Some (tr1 @ [EvClearTimestamp], NotFound)
                 else lookup_walk XidInMVCCSnapshot snapshot (arena s) dsap_chain
                        (dsap_prev chain) tr1))"


subsection \<open>The collaborators of VChainAppendLocator\<close>

text \<open>
  Modelled from the spec: the lightweight locks (\<^verbatim>\<open>LWLockAcquire\<close>, \<^verbatim>\<open>LWLockRelease\<close>) are
  outside vchain.c. The spec calls them reader/writer locks: a shared
  acquisition waits while the lock is held exclusively, an exclusive acquisition waits
  while it is held at all. \<open>None\<close> means that the caller has to wait. The release is
  told the mode in which the caller holds the lock.
\<close>

definition LWLockAcquire :: "LWLockMode \<Rightarrow> LWLock \<Rightarrow> LWLock option" where
  "LWLockAcquire mode l =
     (case mode of
        LW_SHARED \<Rightarrow> if lw_exclusive l then None else Some (l\<lparr>lw_shared := Suc (lw_shared l)\<rparr>)
      | LW_EXCLUSIVE \<Rightarrow>
          if lw_exclusive l \<or> lw_shared l \<noteq> 0 then None else Some (l\<lparr>lw_exclusive := True\<rparr>))"

definition LWLockRelease :: "LWLockMode \<Rightarrow> LWLock \<Rightarrow> LWLock" where
  "LWLockRelease mode l =
     (case mode of
        LW_SHARED \<Rightarrow> l\<lparr>lw_shared := lw_shared l - 1\<rparr>
      | LW_EXCLUSIVE \<Rightarrow> l\<lparr>lw_exclusive := False\<rparr>)"

text \<open>
  Modelled from the spec: \<^verbatim>\<open>VChainHashInsert\<close> is defined in the hash table module,
  outside vchain.c. The spec describes it as an idempotent get-or-create:
  it checks for the key again and returns the dummy node that is there; only when there is
  none it takes a node from the arena (the parameter \<open>alloc\<close> stands for the allocator),
  makes it an empty chain (\<open>prev\<close> and \<open>next\<close> are the node itself, the flag is idle)
  and enters it for the key.
\<close>

definition VChainHashInsert ::
  "(shmem \<Rightarrow> dsa_pointer) \<Rightarrow> PrimaryKey \<Rightarrow> shmem \<Rightarrow> dsa_pointer \<times> shmem" where
  "VChainHashInsert alloc k s =
     (case vchain_hash s k of
        Some d \<Rightarrow> (d, s)
      | None \<Rightarrow>
          (let d = alloc s
           in (d, s\<lparr>vchain_hash := (vchain_hash s)(k \<mapsto> d),
                    arena := (arena s)(d := (arena s d)
                      \<lparr>dsap := d, dsap_prev := d, dsap_next := d, flag := VL_WINNER\<rparr>)\<rparr>)))"

subsection \<open>VChainAppendLocator\<close>

text \<open>
  The appender runs next to other backends and next to the cutter, so it is embedded as a
  machine that takes one access to shared memory per step. The program counter names the
  statement that is executed next; the record holds the local variables of the function.
\<close>

datatype append_pc =
    PC_lock_shared
  | PC_hash_lookup
  | PC_release_hit
  | PC_release_miss
  | PC_lock_exclusive
  | PC_hash_insert
  | PC_release_insert
  | PC_retry
  | PC_xchg_append
  | PC_spin
  | PC_link_prev
  | PC_link_next
  | PC_link_tail
  | PC_link_chain
  | PC_xchg_winner
  | PC_fixup
  | PC_done
  | PC_assert_failed

record appender =
  pc :: append_pc
  primary_key :: PrimaryKey
  locator :: dsa_pointer
  partition_lock :: nat
  dsap_chain :: dsa_pointer
  dsap_tail_prev :: dsa_pointer
  a_flag :: VLocatorFlag

definition set_lock :: "nat \<Rightarrow> LWLock \<Rightarrow> shmem \<Rightarrow> shmem" where
  "set_lock i l s = s\<lparr>locks := (locks s)(i := l)\<rparr>"

definition set_flag :: "dsa_pointer \<Rightarrow> VLocatorFlag \<Rightarrow> shmem \<Rightarrow> shmem" where
  "set_flag p f s = s\<lparr>arena := (arena s)(p := (arena s p)\<lparr>flag := f\<rparr>)\<rparr>"

definition do_store_link ::
  "dsa_pointer \<Rightarrow> link \<Rightarrow> dsa_pointer \<Rightarrow> shmem \<Rightarrow> event list \<times> shmem" where
  "do_store_link p l v s = (case store_link p l v ([], arena s) of (tr, h) \<Rightarrow> (tr, s\<lparr>arena := h\<rparr>))"

text \<open>
  One step of \<^verbatim>\<open>VChainAppendLocator\<close>. \<open>None\<close>: the appender cannot move (it waits for
  a lock, or it has returned or aborted). The \<^verbatim>\<open>assert\<close> of the function is the one of
  \<^verbatim>\<open>assert.h\<close>; a failed assertion ends the appender in \<open>PC_assert_failed\<close>. The test
  of the captured flag and the assertion read local variables only and are part of the
  step of the exchange. \<^verbatim>\<open>__sync_fetch_and_add(&chain->dsap_prev, 0)\<close> stores the value it
  has read plus zero.
\<close>

definition append_step ::
  "(shmem \<Rightarrow> dsa_pointer) \<Rightarrow> Timestamp \<Rightarrow> shmem \<Rightarrow> appender \<Rightarrow>
     (event list \<times> shmem \<times> appender) option" where
  "append_step alloc now s t =
     (case pc t of
        PC_lock_shared \<Rightarrow>
          (case LWLockAcquire LW_SHARED (locks s (partition_lock t)) of
             None \<Rightarrow> None
           | Some l \<Rightarrow> Some ([EvLWLockAcquire (partition_lock t) LW_SHARED],
                            set_lock (partition_lock t) l s, t\<lparr>pc := PC_hash_lookup\<rparr>))
      | PC_hash_lookup \<Rightarrow>
          (case vchain_hash s (primary_key t) of
             Some d \<Rightarrow> Some ([EvHashLookup (primary_key t)], s,
                            t\<lparr>dsap_chain := d, pc := PC_release_hit\<rparr>)
           | None \<Rightarrow> Some ([EvHashLookup (primary_key t)], s, t\<lparr>pc := PC_release_miss\<rparr>))
      | PC_release_hit \<Rightarrow>
          Some ([EvLWLockRelease (partition_lock t)],
                set_lock (partition_lock t) (LWLockRelease LW_SHARED (locks s (partition_lock t))) s,
                t\<lparr>pc := PC_retry\<rparr>)
      | PC_release_miss \<Rightarrow>
          Some ([EvLWLockRelease (partition_lock t)],
                set_lock (partition_lock t) (LWLockRelease LW_SHARED (locks s (partition_lock t))) s,
                t\<lparr>pc := PC_lock_exclusive\<rparr>)
      | PC_lock_exclusive \<Rightarrow>
          (case LWLockAcquire LW_EXCLUSIVE (locks s (partition_lock t)) of
             None \<Rightarrow> None
           | Some l \<Rightarrow> Some ([EvLWLockAcquire (partition_lock t) LW_EXCLUSIVE],
                            set_lock (partition_lock t) l s, t\<lparr>pc := PC_hash_insert\<rparr>))
      | PC_hash_insert \<Rightarrow>
          (case VChainHashInsert alloc (primary_key t) s of
             (d, s') \<Rightarrow> Some ([EvHashInsert (primary_key t)], s',
                              t\<lparr>dsap_chain := d, pc := PC_release_insert\<rparr>))
      | PC_release_insert \<Rightarrow>
          Some ([EvLWLockRelease (partition_lock t)],
                set_lock (partition_lock t) (LWLockRelease LW_EXCLUSIVE (locks s (partition_lock t))) s,
                t\<lparr>pc := PC_retry\<rparr>)
      | PC_retry \<Rightarrow>
          Some ([EvLoad (dsap_chain t)], s,
                t\<lparr>dsap_tail_prev := dsap_prev (arena s (dsap_chain t)), pc := PC_xchg_append\<rparr>)
      | PC_xchg_append \<Rightarrow>
          (let old = flag (arena s (dsap_tail_prev t));
               s' = set_flag (dsap_tail_prev t) VL_APPEND s;
               ev = EvXchgFlag (dsap_tail_prev t) VL_APPEND old
           in if old = VL_DELETE then Some ([ev], s', t\<lparr>a_flag := old, pc := PC_spin\<rparr>)
              else if old = VL_WINNER then Some ([ev], s', t\<lparr>a_flag := old, pc := PC_link_prev\<rparr>)
              else Some ([ev, EvAssertFail], s', t\<lparr>a_flag := old, pc := PC_assert_failed\<rparr>))
      | PC_spin \<Rightarrow>
          (let cur = dsap_prev (arena s (dsap_chain t));
               s' = s\<lparr>arena := (arena s)(dsap_chain t :=
                        (arena s (dsap_chain t))\<lparr>dsap_prev := cur + 0\<rparr>)\<rparr>
           in Some ([EvFetchAdd (dsap_chain t)], s',
                    t\<lparr>pc := (if dsap_tail_prev t = cur then PC_spin else PC_retry)\<rparr>))
      | PC_link_prev \<Rightarrow>
          (case do_store_link (locator t) L_prev (dsap_tail_prev t) s of
             (tr, s') \<Rightarrow> Some (tr, s', t\<lparr>pc := PC_link_next\<rparr>))
      | PC_link_next \<Rightarrow>
          (case do_store_link (locator t) L_next (dsap (arena s (dsap_chain t))) s of
             (tr, s') \<Rightarrow> Some (tr, s', t\<lparr>pc := PC_link_tail\<rparr>))
      | PC_link_tail \<Rightarrow>
          (case do_store_link (dsap_tail_prev t) L_next (dsap (arena s (locator t))) s of
             (tr, s') \<Rightarrow> Some (tr, s', t\<lparr>pc := PC_link_chain\<rparr>))
      | PC_link_chain \<Rightarrow>
          (case do_store_link (dsap_chain t) L_prev (dsap (arena s (locator t))) s of
             (tr, s') \<Rightarrow> Some (tr, s', t\<lparr>pc := PC_xchg_winner\<rparr>))
      | PC_xchg_winner \<Rightarrow>
          (let old = flag (arena s (dsap_tail_prev t));
               s' = set_flag (dsap_tail_prev t) VL_WINNER s
           in Some ([EvXchgFlag (dsap_tail_prev t) VL_WINNER old], s',
                    t\<lparr>a_flag := old, pc := (if old = VL_DELETE then PC_fixup else PC_done)\<rparr>))
      | PC_fixup \<Rightarrow>
          (case VChainFixUpOne now (dsap_tail_prev t) ([], arena s) of
             (tr, h) \<Rightarrow> Some (tr, s\<lparr>arena := h\<rparr>, t\<lparr>pc := PC_done\<rparr>))
      | PC_done \<Rightarrow> None
      | PC_assert_failed \<Rightarrow> None)"

text \<open>The appender at the entry of the function, for a key and the locator to append.\<close>

definition append_init :: "(PrimaryKey \<Rightarrow> nat) \<Rightarrow> PrimaryKey \<Rightarrow> dsa_pointer \<Rightarrow> appender" where
  "append_init part_of k loc =
     \<lparr>pc = PC_lock_shared, primary_key = k, locator = loc, partition_lock = part_of k,
      dsap_chain = 0, dsap_tail_prev = 0, a_flag = VL_WINNER\<rparr>"

text \<open>
  A call that runs alone: steps are taken until the function returns or aborts. When the
  appender waits for ever (for a lock, or in the spin loop) the value is \<open>None\<close>.
\<close>

partial_function (option) append_run ::
  "(shmem \<Rightarrow> dsa_pointer) \<Rightarrow> Timestamp \<Rightarrow> shmem \<Rightarrow> appender \<Rightarrow> event list \<Rightarrow>
     (event list \<times> shmem \<times> appender) option" where
  "append_run alloc now s t tr =
     (if pc t = PC_done \<or> pc t = PC_assert_failed then Some (tr, s, t)
      else case append_step alloc now s t of
             None \<Rightarrow> None
           | Some (ev, s', t') \<Rightarrow> append_run alloc now s' t' (tr @ ev))"

definition VChainAppendLocator ::
  "(shmem \<Rightarrow> dsa_pointer) \<Rightarrow> Timestamp \<Rightarrow> (PrimaryKey \<Rightarrow> nat) \<Rightarrow> PrimaryKey \<Rightarrow> dsa_pointer \<Rightarrow>
     shmem \<Rightarrow> (event list \<times> shmem \<times> appender) option" where
  "VChainAppendLocator alloc now part_of k loc s = append_run alloc now s (append_init part_of k loc) []"

subsection \<open>Several appenders\<close>

text \<open>
  Concurrent calls: the shared memory and one appender per call. A schedule is the list of
  the indices of the appenders that take the next step; it is feasible when every
  appender it names can move.
\<close>

record sys =
  shm :: shmem
  threads :: "appender list"

definition sched_step ::
  "(shmem \<Rightarrow> dsa_pointer) \<Rightarrow> Timestamp \<Rightarrow> nat \<Rightarrow> sys \<Rightarrow> (event list \<times> sys) option" where
  "sched_step alloc now i c =
     (if i < length (threads c) then
        (case append_step alloc now (shm c) (threads c ! i) of
           None \<Rightarrow> None
         | Some (ev, s', t') \<Rightarrow> Some (ev, \<lparr>shm = s', threads = (threads c)[i := t']\<rparr>))
      else None)"

fun run_sched ::
  "(shmem \<Rightarrow> dsa_pointer) \<Rightarrow> Timestamp \<Rightarrow> nat list \<Rightarrow> sys \<Rightarrow> (event list \<times> sys) option" where
  "run_sched alloc now [] c = Some ([], c)"
| "run_sched alloc now (i # sched) c =
     (case sched_step alloc now i c of
        None \<Rightarrow> None
      | Some (ev, c') \<Rightarrow>
          (case run_sched alloc now sched c' of
             None \<Rightarrow> None
           | Some (tr, c'') \<Rightarrow> Some (ev @ tr, c'')))"

subsection \<open>Well-formed chains\<close>

text \<open>
  \<open>links h ps\<close>: along the list \<open>ps\<close> every locator points forward to its successor and
  the successor points back. \<open>wf_chain h a xs\<close>: the dummy node \<open>a\<close> and the versions
  \<open>xs\<close> (oldest first) are pairwise distinct, every one of them records its own offset,
  and they form the circle \<open>a, xs, a\<close>.
\<close>

fun links :: "arena \<Rightarrow> dsa_pointer list \<Rightarrow> bool" where
  "links h (p # q # ps) = (dsap_next (h p) = q \<and> dsap_prev (h q) = p \<and> links h (q # ps))"
| "links h ps = True"

definition wf_chain :: "arena \<Rightarrow> dsa_pointer \<Rightarrow> dsa_pointer list \<Rightarrow> bool" where
  "wf_chain h a xs =
     (distinct (a # xs) \<and> list_all (\<lambda>p. dsap (h p) = p) (a # xs) \<and> links h (a # xs @ [a]))"


subsection \<open>The epoch along a log\<close>

text \<open>
  \<open>epoch_published b tr\<close>: whether the epoch of the caller is published after the events
  \<open>tr\<close>, when \<open>b\<close> says whether it was published before. \<open>loads_published b tr\<close>: every
  access to a locator in \<open>tr\<close> happens while the epoch is published.
\<close>

fun epoch_published :: "bool \<Rightarrow> event list \<Rightarrow> bool" where
  "epoch_published b [] = b"
| "epoch_published b (EvSetTimestamp # es) = epoch_published True es"
| "epoch_published b (EvClearTimestamp # es) = epoch_published False es"
| "epoch_published b (e # es) = epoch_published b es"

fun loads_published :: "bool \<Rightarrow> event list \<Rightarrow> bool" where
  "loads_published b [] = True"
| "loads_published b (EvSetTimestamp # es) = loads_published True es"
| "loads_published b (EvClearTimestamp # es) = loads_published False es"
| "loads_published b (EvLoad p # es) = (b \<and> loads_published b es)"
| "loads_published b (e # es) = loads_published b es"


subsection \<open>A chain with two versions\<close>

text \<open>
  A concrete shared memory for evaluating the operations: key 7 has the dummy node at
  offset 1 and the versions at offsets 2 (created by transaction 10) and 3 (created by
  transaction 20); key 9 has an empty chain at offset 4; every other offset holds an
  unlinked locator that records its own offset. All locks are free. The example snapshot
  is the list of the transactions that are in progress for it.
\<close>

definition node ::
  "dsa_pointer \<Rightarrow> dsa_pointer \<Rightarrow> dsa_pointer \<Rightarrow> TransactionId \<Rightarrow> VLocatorFlag \<Rightarrow> VLocator" where
  "node p pr nx x f = \<lparr>dsap = p, dsap_prev = pr, dsap_next = nx, xmin = x, flag = f, timestamp = 0\<rparr>"

definition ex_arena :: arena where
  "ex_arena = (\<lambda>p. node p p p 30 VL_WINNER)
     (1 := node 1 3 2 0 VL_WINNER,
      2 := node 2 1 3 10 VL_WINNER,
      3 := node 3 2 1 20 VL_WINNER,
      4 := node 4 4 4 0 VL_WINNER)"

definition ex_shmem :: shmem where
  "ex_shmem = \<lparr>vchain_hash = [7 \<mapsto> 1, 9 \<mapsto> 4], arena = ex_arena,
               locks = (\<lambda>i. \<lparr>lw_exclusive = False, lw_shared = 0\<rparr>)\<rparr>"

definition ex_in_snapshot :: "TransactionId \<Rightarrow> TransactionId list \<Rightarrow> bool" where
  "ex_in_snapshot xid snap = (xid \<in> set snap)"

definition ex_part :: "PrimaryKey \<Rightarrow> nat" where
  "ex_part k = 0"


subsection \<open>Runs of a given length, calls in sequence, outcomes of schedules\<close>

text \<open>\<open>append_steps n\<close>: the appender takes \<open>n\<close> steps with nobody else moving.\<close>

fun append_steps ::
  "(shmem \<Rightarrow> dsa_pointer) \<Rightarrow> Timestamp \<Rightarrow> nat \<Rightarrow> shmem \<Rightarrow> appender \<Rightarrow>
     (event list \<times> shmem \<times> appender) option" where
  "append_steps alloc now 0 s t = Some ([], s, t)"
| "append_steps alloc now (Suc n) s t =
     (case append_step alloc now s t of
        None \<Rightarrow> None
      | Some (ev, s', t') \<Rightarrow>
          (case append_steps alloc now n s' t' of
             None \<Rightarrow> None
           | Some (tr, s'', t'') \<Rightarrow> Some (ev @ tr, s'', t'')))"

text \<open>
  \<open>append_all\<close>: one call of \<^verbatim>\<open>VChainAppendLocator\<close> after the other, for the same key,
  each one returning before the next one starts.
\<close>

fun append_all ::
  "(shmem \<Rightarrow> dsa_pointer) \<Rightarrow> Timestamp \<Rightarrow> (PrimaryKey \<Rightarrow> nat) \<Rightarrow> PrimaryKey \<Rightarrow>
     dsa_pointer list \<Rightarrow> shmem \<Rightarrow> shmem option" where
  "append_all alloc now part_of k [] s = Some s"
| "append_all alloc now part_of k (n # ns) s =
     (case VChainAppendLocator alloc now part_of k n s of
        None \<Rightarrow> None
      | Some (tr, s', t) \<Rightarrow>
          if pc t = PC_done then append_all alloc now part_of k ns s' else None)"

text \<open>
  \<open>versions h a n\<close>: the locators met from the dummy node \<open>a\<close> along \<open>dsap_next\<close> until
  the dummy node is met again, at most \<open>n\<close> of them.
\<close>

fun walk_next :: "arena \<Rightarrow> dsa_pointer \<Rightarrow> dsa_pointer \<Rightarrow> nat \<Rightarrow> dsa_pointer list" where
  "walk_next h a p 0 = []"
| "walk_next h a p (Suc n) = (if p = a then [] else p # walk_next h a (dsap_next (h p)) n)"

definition versions :: "arena \<Rightarrow> dsa_pointer \<Rightarrow> nat \<Rightarrow> dsa_pointer list" where
  "versions h a n = walk_next h a (dsap_next (h a)) n"

text \<open>
  The outcome of a schedule: where every appender stands, the flag every appender has
  captured last, and the versions in the chain of the dummy node \<open>a\<close>.
\<close>

definition sched_outcome ::
  "(shmem \<Rightarrow> dsa_pointer) \<Rightarrow> Timestamp \<Rightarrow> nat list \<Rightarrow> sys \<Rightarrow> dsa_pointer \<Rightarrow>
     (append_pc list \<times> VLocatorFlag list \<times> dsa_pointer list) option" where
  "sched_outcome alloc now sched c a =
     (case run_sched alloc now sched c of
        None \<Rightarrow> None
      | Some (tr, c') \<Rightarrow>
          Some (map pc (threads c'), map a_flag (threads c'),
                versions (arena (shm c')) a (length (threads c') + 1)))"

text \<open>Two appenders for the key 9 of the example, whose chain is empty, and an allocator.\<close>

definition ex_two_appenders :: sys where
  "ex_two_appenders =
     \<lparr>shm = ex_shmem, threads = [append_init ex_part 9 5, append_init ex_part 9 6]\<rparr>"

definition ex_alloc :: "shmem \<Rightarrow> dsa_pointer" where
  "ex_alloc s = 100"


text \<open>
  An appender for key 7 of the example that has read the tail (offset 3) and is about to
  exchange its flag; the example with the tail claimed by the cutter; and the example
  after the appender has marked the tail and the cutter has unlinked it.
\<close>

definition ex_at_xchg :: appender where
  "ex_at_xchg = (append_init ex_part 7 5)\<lparr>dsap_chain := 1, dsap_tail_prev := 3, pc := PC_xchg_append\<rparr>"

definition ex_shmem_delete :: shmem where
  "ex_shmem_delete = set_flag 3 VL_DELETE ex_shmem"

definition ex_shmem_cut :: shmem where
  "ex_shmem_cut = (set_flag 3 VL_APPEND ex_shmem)
     \<lparr>arena := snd (VChainFixUpOne 0 3 ([], arena (set_flag 3 VL_APPEND ex_shmem)))\<rparr>"

text \<open>
  An appender for the key 8, which has no dummy node in the example, after its lookup;
  and two appenders for that key at the entry of the function.
\<close>

definition ex_two_creators :: sys where
  "ex_two_creators =
     \<lparr>shm = ex_shmem, threads = [append_init ex_part 8 5, append_init ex_part 8 6]\<rparr>"


definition ex_at_insert :: appender where
  "ex_at_insert = (append_init ex_part 8 5)\<lparr>pc := PC_hash_insert\<rparr>"






text \<open>
  \<open>append_effect h a tp n\<close>: the arena after the stores of a call that appends the
  locator \<open>n\<close> to the chain of the dummy node \<open>a\<close> with the tail \<open>tp\<close> and is not
  disturbed: mark the tail, the four link stores, reset the flag of the tail.
\<close>

definition append_effect :: "arena \<Rightarrow> dsa_pointer \<Rightarrow> dsa_pointer \<Rightarrow> dsa_pointer \<Rightarrow> arena" where
  "append_effect h a tp n =
     (let h0 = h(tp := (h tp)\<lparr>flag := VL_APPEND\<rparr>);
          h1 = h0(n := (h0 n)\<lparr>dsap_prev := tp\<rparr>);
          h2 = h1(n := (h1 n)\<lparr>dsap_next := dsap (h1 a)\<rparr>);
          h3 = h2(tp := (h2 tp)\<lparr>dsap_next := dsap (h2 n)\<rparr>);
          h4 = h3(a := (h3 a)\<lparr>dsap_prev := dsap (h3 n)\<rparr>)
      in h4(tp := (h4 tp)\<lparr>flag := VL_WINNER\<rparr>))"


section \<open>Properties\<close>

subsection \<open>Lookup on a well-formed chain\<close>

lemma walk_shape_step:
  assumes "\<exists>ps. fst y = (tr @ [EvLoad loc]) @ map EvLoad ps @ [EvClearTimestamp] \<and> ps \<noteq> [] \<and>
             (\<forall>p. snd y = Found p \<longrightarrow> last ps = p \<and> \<not> X (xmin (h p)) snap)"
  shows "\<exists>ps. fst y = tr @ map EvLoad ps @ [EvClearTimestamp] \<and> ps \<noteq> [] \<and>
             (\<forall>p. snd y = Found p \<longrightarrow> last ps = p \<and> \<not> X (xmin (h p)) snap)"
proof -
  from assms obtain ps where
    ps: "fst y = (tr @ [EvLoad loc]) @ map EvLoad ps @ [EvClearTimestamp]" "ps \<noteq> []"
        "\<forall>p. snd y = Found p \<longrightarrow> last ps = p \<and> \<not> X (xmin (h p)) snap"
    by blast
  show ?thesis
    by (rule exI[of _ "loc # ps"]) (use ps in simp)
qed

lemma walk_shape_stop:
  assumes "snd y = Found loc \<and> \<not> X (xmin (h loc)) snap \<or> snd y = NotFound"
    and "fst y = tr @ [EvLoad loc, EvClearTimestamp]"
  shows "\<exists>ps. fst y = tr @ map EvLoad ps @ [EvClearTimestamp] \<and> ps \<noteq> [] \<and>
             (\<forall>p. snd y = Found p \<longrightarrow> last ps = p \<and> \<not> X (xmin (h p)) snap)"
  using assms by (intro exI[of _ "[loc]"]) auto

text \<open>
  Whenever the loop returns, it has extended the log by accesses to locators and one
  final \<^verbatim>\<open>ClearTimestamp\<close>; a locator that is found is the last one accessed, and its
  creator is not in the snapshot.
\<close>

lemma walk_shape_aux:
  "lookup_walk X snap h chain loc tr = Some y \<Longrightarrow>
     \<exists>ps. fst y = tr @ map EvLoad ps @ [EvClearTimestamp] \<and> ps \<noteq> [] \<and>
          (\<forall>p. snd y = Found p \<longrightarrow> last ps = p \<and> \<not> X (xmin (h p)) snap)"
proof (rule lookup_walk.raw_induct[where P = "\<lambda>X snap h chain loc tr y.
          \<exists>ps. fst y = tr @ map EvLoad ps @ [EvClearTimestamp] \<and> ps \<noteq> [] \<and>
               (\<forall>p. snd y = Found p \<longrightarrow> last ps = p \<and> \<not> X (xmin (h p)) snap)"],
    goal_cases)
  case (1 walk X snap h chain loc tr y)
  show ?case
  proof (cases "dsap (h loc) \<noteq> dsap (h chain) \<and> X (xmin (h loc)) snap")
    case True
    with 1(3) have "walk X snap h chain (dsap_prev (h loc)) (tr @ [EvLoad loc]) = Some y"
      by simp
    from 1(2)[OF this] show ?thesis by (rule walk_shape_step)
  next
    case False
    with 1(3) show ?thesis
      by (intro walk_shape_stop) (auto split: if_splits)
  qed
qed

lemma links_snoc:
  "links h (ps @ [q]) =
     (ps = [] \<or> (links h ps \<and> dsap_next (h (last ps)) = q \<and> dsap_prev (h q) = last ps))"
  by (induction h ps rule: links.induct) auto

lemma walk_wf:
  assumes d: "distinct (a # ys)" and s: "list_all (\<lambda>p. dsap (h p) = p) (a # ys)"
    and l: "links h (a # ys)"
  shows "\<exists>tr'. lookup_walk X snap h a (last (a # ys)) tr =
           Some (tr', case find (\<lambda>p. \<not> X (xmin (h p)) snap) (rev ys) of
                        None \<Rightarrow> NotFound | Some p \<Rightarrow> Found p)"
  using assms
proof (induction ys arbitrary: tr rule: rev_induct)
  case Nil
  show ?case by (subst lookup_walk.simps) simp
next
  case (snoc y ys)
  have ya: "dsap (h y) \<noteq> dsap (h a)" using snoc.prems(1,2) by auto
  have lk: "links h (a # ys) \<and> dsap_prev (h y) = last (a # ys)"
    using snoc.prems(3) links_snoc[of h "a # ys" y] by simp
  show ?case
  proof (cases "X (xmin (h y)) snap")
    case True
    have "\<exists>tr'. lookup_walk X snap h a (last (a # ys)) (tr @ [EvLoad y]) =
           Some (tr', case find (\<lambda>p. \<not> X (xmin (h p)) snap) (rev ys) of
                        None \<Rightarrow> NotFound | Some p \<Rightarrow> Found p)"
      using snoc.prems(1,2) lk by (intro snoc.IH) auto
    then show ?thesis
      using True ya lk by (subst lookup_walk.simps) simp
  next
    case False
    then show ?thesis using ya by (subst lookup_walk.simps) simp
  qed
qed

lemma wf_chain_tail:
  assumes "wf_chain h a xs"
  shows "dsap_prev (h a) = last (a # xs)" and "links h (a # xs)" and "dsap (h a) = a"
    and "(last (a # xs) = a) = (xs = [])"
proof -
  from assms have l: "links h ((a # xs) @ [a])" and d: "distinct (a # xs)"
    and s: "dsap (h a) = a"
    by (simp_all add: wf_chain_def)
  from l show "dsap_prev (h a) = last (a # xs)" and "links h (a # xs)"
    unfolding links_snoc by simp_all
  show "dsap (h a) = a" by (rule s)
  from d show "(last (a # xs) = a) = (xs = [])"
    by (cases xs rule: rev_cases) auto
qed

lemma lookup_wf:
  assumes hit: "vchain_hash s k = Some a" and wf: "wf_chain (arena s) a xs"
  shows "\<exists>tr. VChainLookupLocator X part_of k snap s =
           Some (tr, case find (\<lambda>p. \<not> X (xmin (arena s p)) snap) (rev xs) of
                       None \<Rightarrow> NotFound | Some p \<Rightarrow> Found p)"
proof (cases "xs = []")
  case True
  with wf_chain_tail[OF wf] hit show ?thesis
    by (simp add: VChainLookupLocator_def Let_def)
next
  case False
  from wf have d: "distinct (a # xs)" and sf: "list_all (\<lambda>p. dsap (arena s p) = p) (a # xs)"
    by (simp_all add: wf_chain_def)
  note t = wf_chain_tail[OF wf]
  from walk_wf[OF d sf t(2), of X snap]
  show ?thesis using hit False t(1,3,4)
    by (simp add: VChainLookupLocator_def Let_def del: distinct.simps)
qed

lemma find_newest:
  assumes "n \<le> length xs" and "\<forall>p\<in>set (drop (length xs - n) xs). \<not> P p"
    and "n < length xs \<longrightarrow> P (xs ! (length xs - n - 1))"
  shows "find P (rev xs) = (if n = length xs then None else Some (xs ! (length xs - n - 1)))"
  using assms
proof (induction xs arbitrary: n rule: rev_induct)
  case Nil
  then show ?case by simp
next
  case (snoc y ys)
  show ?case
  proof (cases n)
    case 0
    with snoc.prems show ?thesis by simp
  next
    case (Suc m)
    with snoc.prems have m: "m \<le> length ys" and ny: "\<not> P y"
      and dr: "\<forall>p\<in>set (drop (length ys - m) ys). \<not> P p"
      by auto
    have nx: "m < length ys \<longrightarrow> P (ys ! (length ys - m - 1))"
    proof
      assume lt: "m < length ys"
      then have "length ys - Suc m < length ys" by arith
      with snoc.prems(3) Suc lt show "P (ys ! (length ys - m - 1))"
        by (simp add: nth_append)
    qed
    show ?thesis
    proof (cases "m = length ys")
      case True
      with snoc.IH[OF m dr nx] ny Suc show ?thesis by simp
    next
      case False
      with m have "length ys - Suc m < length ys" by arith
      with snoc.IH[OF m dr nx] ny Suc False show ?thesis
        by (simp add: nth_append)
    qed
  qed
qed


text \<open>
  C1. \<^verbatim>\<open>VChainLookupLocator\<close> returns not-found when the hash table has no dummy node for
  the key, and when the chain is empty (\<open>dsap_prev\<close> of the dummy node is the dummy node),
  whatever the snapshot. On a well-formed chain with the versions \<open>xs\<close> (oldest first)
  it returns and yields the first version, walking from the newest one along
  \<open>dsap_prev\<close>, whose creator is not in the snapshot, and not-found when there is none.
  In particular, when the snapshot hides exactly the newest \<open>n\<close> of \<open>N\<close> versions, the
  result is version \<open>N - n\<close> (at index \<open>N - n - 1\<close>), and not-found when \<open>n = N\<close>.
\<close>

theorem lookup_first_visible:
  fixes X :: "TransactionId \<Rightarrow> 'snap \<Rightarrow> bool"
  shows
  "(vchain_hash s k = None \<longrightarrow>
      (\<exists>tr. VChainLookupLocator X part_of k snap s = Some (tr, NotFound))) \<and>
   (\<forall>a. vchain_hash s k = Some a \<and> dsap_prev (arena s a) = dsap (arena s a) \<longrightarrow>
      (\<exists>tr. VChainLookupLocator X part_of k snap s = Some (tr, NotFound))) \<and>
   (\<forall>a xs. vchain_hash s k = Some a \<and> wf_chain (arena s) a xs \<longrightarrow>
      (\<exists>tr. VChainLookupLocator X part_of k snap s =
         Some (tr, case find (\<lambda>p. \<not> X (xmin (arena s p)) snap) (rev xs) of
                     None \<Rightarrow> NotFound | Some p \<Rightarrow> Found p))) \<and>
   (\<forall>a xs n. vchain_hash s k = Some a \<and> wf_chain (arena s) a xs \<and> n \<le> length xs \<and>
        (\<forall>p\<in>set (drop (length xs - n) xs). X (xmin (arena s p)) snap) \<and>
        (n < length xs \<longrightarrow> \<not> X (xmin (arena s (xs ! (length xs - n - 1)))) snap) \<longrightarrow>
      (\<exists>tr. VChainLookupLocator X part_of k snap s =
         Some (tr, if n = length xs then NotFound else Found (xs ! (length xs - n - 1)))))"
proof (intro conjI allI impI)
  assume "vchain_hash s k = None"
  then show "\<exists>tr. VChainLookupLocator X part_of k snap s = Some (tr, NotFound)"
    by (simp add: VChainLookupLocator_def Let_def)
next
  fix a
  assume "vchain_hash s k = Some a \<and> dsap_prev (arena s a) = dsap (arena s a)"
  then show "\<exists>tr. VChainLookupLocator X part_of k snap s = Some (tr, NotFound)"
    by (simp add: VChainLookupLocator_def Let_def)
next
  fix a xs
  assume "vchain_hash s k = Some a \<and> wf_chain (arena s) a xs"
  then show "\<exists>tr. VChainLookupLocator X part_of k snap s =
         Some (tr, case find (\<lambda>p. \<not> X (xmin (arena s p)) snap) (rev xs) of
                     None \<Rightarrow> NotFound | Some p \<Rightarrow> Found p)"
    by (elim conjE) (rule lookup_wf)
next
  fix a xs n
  assume h: "vchain_hash s k = Some a \<and> wf_chain (arena s) a xs \<and> n \<le> length xs \<and>
        (\<forall>p\<in>set (drop (length xs - n) xs). X (xmin (arena s p)) snap) \<and>
        (n < length xs \<longrightarrow> \<not> X (xmin (arena s (xs ! (length xs - n - 1)))) snap)"
  then have f: "find (\<lambda>p. \<not> X (xmin (arena s p)) snap) (rev xs) =
      (if n = length xs then None else Some (xs ! (length xs - n - 1)))"
    by (intro find_newest) auto
  from h lookup_wf[of s k a xs X part_of snap]
  show "\<exists>tr. VChainLookupLocator X part_of k snap s =
         Some (tr, if n = length xs then NotFound else Found (xs ! (length xs - n - 1)))"
    unfolding f by (auto split: if_splits)
qed


theorem lookup_first_visible_witness:
  "vchain_hash ex_shmem 8 = None \<and>
   (\<exists>tr. VChainLookupLocator ex_in_snapshot ex_part 8 [20] ex_shmem = Some (tr, NotFound)) \<and>
   vchain_hash ex_shmem 9 = Some 4 \<and> dsap_prev (arena ex_shmem 4) = dsap (arena ex_shmem 4) \<and>
   (\<exists>tr. VChainLookupLocator ex_in_snapshot ex_part 9 [] ex_shmem = Some (tr, NotFound)) \<and>
   vchain_hash ex_shmem 7 = Some 1 \<and> wf_chain (arena ex_shmem) 1 [2, 3] \<and>
   (\<exists>tr. VChainLookupLocator ex_in_snapshot ex_part 7 [20] ex_shmem = Some (tr, Found 2)) \<and>
   (\<exists>tr. VChainLookupLocator ex_in_snapshot ex_part 7 [] ex_shmem = Some (tr, Found 3)) \<and>
   (\<exists>tr. VChainLookupLocator ex_in_snapshot ex_part 7 [10, 20] ex_shmem = Some (tr, NotFound))"
proof -
  have h8: "vchain_hash ex_shmem 8 = None"
    and h9: "vchain_hash ex_shmem 9 = Some 4 \<and> dsap_prev (arena ex_shmem 4) = dsap (arena ex_shmem 4)"
    and h7: "vchain_hash ex_shmem 7 = Some 1"
    by (simp_all add: ex_shmem_def ex_arena_def node_def)
  have wf: "wf_chain (arena ex_shmem) 1 [2, 3]"
    by (simp add: wf_chain_def ex_shmem_def ex_arena_def node_def)
  have x: "xmin (arena ex_shmem 2) = 10" "xmin (arena ex_shmem 3) = 20"
    by (simp_all add: ex_shmem_def ex_arena_def node_def)
  note T = lookup_first_visible[where s = ex_shmem and X = ex_in_snapshot and part_of = ex_part]
  have c1: "\<exists>tr. VChainLookupLocator ex_in_snapshot ex_part 8 [20] ex_shmem = Some (tr, NotFound)"
    using T[where k = 8 and snap = "[20]", THEN conjunct1] h8 by simp
  have c2: "\<exists>tr. VChainLookupLocator ex_in_snapshot ex_part 9 [] ex_shmem = Some (tr, NotFound)"
    using T[where k = 9 and snap = "[]", THEN conjunct2, THEN conjunct1, rule_format, of 4] h9
    by simp
  have c3: "\<exists>tr. VChainLookupLocator ex_in_snapshot ex_part 7 [20] ex_shmem = Some (tr, Found 2)"
    using T[where k = 7 and snap = "[20]", THEN conjunct2, THEN conjunct2, THEN conjunct1,
        rule_format, of 1 "[2, 3]"] h7 wf
    by (simp add: x ex_in_snapshot_def)
  have c4: "\<exists>tr. VChainLookupLocator ex_in_snapshot ex_part 7 [] ex_shmem = Some (tr, Found 3)"
    using T[where k = 7 and snap = "[]", THEN conjunct2, THEN conjunct2, THEN conjunct2,
        rule_format, of 1 "[2, 3]" 0] h7 wf
    by (simp add: x ex_in_snapshot_def)
  have c5: "\<exists>tr. VChainLookupLocator ex_in_snapshot ex_part 7 [10, 20] ex_shmem = Some (tr, NotFound)"
    using T[where k = 7 and snap = "[10, 20]", THEN conjunct2, THEN conjunct2, THEN conjunct2,
        rule_format, of 1 "[2, 3]" 2] h7 wf
    by (simp add: x ex_in_snapshot_def)
  from h8 h9 h7 wf c1 c2 c3 c4 c5 show ?thesis by blast
qed


subsection \<open>The epoch bracket of the lookup\<close>

lemma epoch_published_clear: "epoch_published b (es @ [EvClearTimestamp]) = False"
proof (induction es arbitrary: b)
  case Nil
  show ?case by simp
next
  case (Cons e es)
  then show ?case by (cases e) simp_all
qed

lemma loads_published_loads:
  "loads_published b (map EvLoad ps @ es) = ((ps = [] \<or> b) \<and> loads_published b es)"
  by (induction ps) auto

lemma lookup_shape:
  assumes "VChainLookupLocator X part_of k snap s = Some (tr, r)"
  shows "case vchain_hash s k of
           None \<Rightarrow> tr = [EvLWLockAcquire (part_of k) LW_SHARED, EvHashLookup k,
                         EvLWLockRelease (part_of k)] \<and> r = NotFound
         | Some a \<Rightarrow>
             (\<exists>ps. tr = [EvLWLockAcquire (part_of k) LW_SHARED, EvHashLookup k,
                          EvLWLockRelease (part_of k), EvSetTimestamp] @
                         map EvLoad (a # ps) @ [EvClearTimestamp] \<and>
                   (\<forall>p. r = Found p \<longrightarrow> ps \<noteq> [] \<and> last ps = p \<and> \<not> X (xmin (arena s p)) snap))"
proof (cases "vchain_hash s k")
  case None
  with assms show ?thesis by (auto simp: VChainLookupLocator_def Let_def)
next
  case (Some a)
  show ?thesis
  proof (cases "dsap_prev (arena s a) = dsap (arena s a)")
    case True
    with assms Some have "tr = [EvLWLockAcquire (part_of k) LW_SHARED, EvHashLookup k,
                          EvLWLockRelease (part_of k), EvSetTimestamp] @
                         map EvLoad (a # []) @ [EvClearTimestamp] \<and> r = NotFound"
      by (auto simp: VChainLookupLocator_def Let_def)
    then show ?thesis using Some by simp
  next
    case False
    with assms Some have "lookup_walk X snap (arena s) a (dsap_prev (arena s a))
         [EvLWLockAcquire (part_of k) LW_SHARED, EvHashLookup k,
          EvLWLockRelease (part_of k), EvSetTimestamp, EvLoad a] = Some (tr, r)"
      by (simp add: VChainLookupLocator_def Let_def)
    from walk_shape_aux[OF this] obtain ps where
      ps: "tr = [EvLWLockAcquire (part_of k) LW_SHARED, EvHashLookup k,
          EvLWLockRelease (part_of k), EvSetTimestamp, EvLoad a] @ map EvLoad ps @ [EvClearTimestamp]"
       "ps \<noteq> []" "\<forall>p. r = Found p \<longrightarrow> last ps = p \<and> \<not> X (xmin (arena s p)) snap"
      by auto
    show ?thesis using Some ps by (simp del: append.simps) (rule exI[of _ ps], simp)
  qed
qed


text \<open>
  C7. Whenever \<^verbatim>\<open>VChainLookupLocator\<close> returns, every access to a locator in its log
  happens while the epoch is published, and the epoch is not published at the return.
  When the key has a dummy node \<open>a\<close> (the three exits: found, empty chain, no visible
  version) the log is: lock, hash lookup, unlock, \<^verbatim>\<open>SetTimestamp\<close>, then the accesses to
  locators, starting with the dummy node, then \<^verbatim>\<open>ClearTimestamp\<close> as the last event.
  The lookup does return when the key has no dummy node and when its chain is well-formed.
\<close>

theorem lookup_epoch_scoped:
  fixes X :: "TransactionId \<Rightarrow> 'snap \<Rightarrow> bool"
  shows
  "(\<forall>tr r. VChainLookupLocator X part_of k snap s = Some (tr, r) \<longrightarrow>
      loads_published False tr \<and> \<not> epoch_published False tr \<and>
      (\<forall>a. vchain_hash s k = Some a \<longrightarrow>
         (\<exists>ps. tr = [EvLWLockAcquire (part_of k) LW_SHARED, EvHashLookup k,
                      EvLWLockRelease (part_of k), EvSetTimestamp] @
                     map EvLoad (a # ps) @ [EvClearTimestamp]))) \<and>
   (vchain_hash s k = None \<or> (\<exists>a xs. vchain_hash s k = Some a \<and> wf_chain (arena s) a xs) \<longrightarrow>
      (\<exists>tr r. VChainLookupLocator X part_of k snap s = Some (tr, r)))"
proof (intro conjI allI impI)
  fix tr r
  assume ret: "VChainLookupLocator X part_of k snap s = Some (tr, r)"
  note sh = lookup_shape[OF ret]
  show "loads_published False tr"
  proof (cases "vchain_hash s k")
    case None
    with sh show ?thesis by simp
  next
    case (Some a)
    with sh obtain ps where "tr = [EvLWLockAcquire (part_of k) LW_SHARED, EvHashLookup k,
        EvLWLockRelease (part_of k), EvSetTimestamp] @ map EvLoad (a # ps) @ [EvClearTimestamp]"
      by auto
    then show ?thesis
      by (simp add: loads_published_loads)
  qed
  show "\<not> epoch_published False tr"
  proof (cases "vchain_hash s k")
    case None
    with sh show ?thesis by simp
  next
    case (Some a)
    with sh obtain ps where "tr = ([EvLWLockAcquire (part_of k) LW_SHARED, EvHashLookup k,
        EvLWLockRelease (part_of k), EvSetTimestamp] @ map EvLoad (a # ps)) @ [EvClearTimestamp]"
      by auto
    then show ?thesis
      by (simp only: epoch_published_clear) simp
  qed
  fix a
  assume "vchain_hash s k = Some a"
  with sh show "\<exists>ps. tr = [EvLWLockAcquire (part_of k) LW_SHARED, EvHashLookup k,
      EvLWLockRelease (part_of k), EvSetTimestamp] @ map EvLoad (a # ps) @ [EvClearTimestamp]"
    by auto
next
  assume "vchain_hash s k = None \<or> (\<exists>a xs. vchain_hash s k = Some a \<and> wf_chain (arena s) a xs)"
  then show "\<exists>tr r. VChainLookupLocator X part_of k snap s = Some (tr, r)"
  proof
    assume "vchain_hash s k = None"
    then show ?thesis by (simp add: VChainLookupLocator_def Let_def)
  next
    assume "\<exists>a xs. vchain_hash s k = Some a \<and> wf_chain (arena s) a xs"
    then obtain a xs where "vchain_hash s k = Some a" "wf_chain (arena s) a xs" by blast
    from lookup_wf[OF this, of X part_of snap] show ?thesis by blast
  qed
qed

theorem lookup_epoch_scoped_witness:
  "VChainLookupLocator ex_in_snapshot ex_part 7 [20] ex_shmem =
     Some ([EvLWLockAcquire 0 LW_SHARED, EvHashLookup 7, EvLWLockRelease 0, EvSetTimestamp,
            EvLoad 1, EvLoad 3, EvLoad 2, EvClearTimestamp], Found 2) \<and>
   vchain_hash ex_shmem 7 = Some 1 \<and> wf_chain (arena ex_shmem) 1 [2, 3] \<and>
   loads_published False [EvLWLockAcquire 0 LW_SHARED, EvHashLookup 7, EvLWLockRelease 0,
     EvSetTimestamp, EvLoad 1, EvLoad 3, EvLoad 2, EvClearTimestamp] \<and>
   (\<exists>tr r. VChainLookupLocator ex_in_snapshot ex_part 7 [10, 20] ex_shmem = Some (tr, r))"
proof -
  have r: "VChainLookupLocator ex_in_snapshot ex_part 7 [20] ex_shmem =
     Some ([EvLWLockAcquire 0 LW_SHARED, EvHashLookup 7, EvLWLockRelease 0, EvSetTimestamp,
            EvLoad 1, EvLoad 3, EvLoad 2, EvClearTimestamp], Found 2)"
    by (simp add: VChainLookupLocator_def ex_shmem_def ex_arena_def node_def Let_def
        ex_in_snapshot_def lookup_walk.simps ex_part_def)
  have h7: "vchain_hash ex_shmem 7 = Some 1"
    by (simp add: ex_shmem_def)
  have wf: "wf_chain (arena ex_shmem) 1 [2, 3]"
    by (simp add: wf_chain_def ex_shmem_def ex_arena_def node_def)
  note T = lookup_epoch_scoped[where s = ex_shmem and X = ex_in_snapshot and part_of = ex_part
      and k = 7]
  from T[where snap = "[20]", THEN conjunct1, rule_format, OF r]
  have l: "loads_published False [EvLWLockAcquire 0 LW_SHARED, EvHashLookup 7, EvLWLockRelease 0,
     EvSetTimestamp, EvLoad 1, EvLoad 3, EvLoad 2, EvClearTimestamp]"
    by blast
  have "vchain_hash ex_shmem 7 = None \<or>
      (\<exists>a xs. vchain_hash ex_shmem 7 = Some a \<and> wf_chain (arena ex_shmem) a xs)"
    using h7 wf by blast
  from T[where snap = "[10, 20]", THEN conjunct2, rule_format, OF this]
  have e: "\<exists>tr r. VChainLookupLocator ex_in_snapshot ex_part 7 [10, 20] ex_shmem = Some (tr, r)" .
  from r h7 wf l e show ?thesis by blast
qed

text \<open>
  C9. When \<^verbatim>\<open>VChainLookupLocator\<close> returns \<^verbatim>\<open>true\<close> with the locator \<open>p\<close>, the log ends
  with the access to \<open>p\<close> followed by \<^verbatim>\<open>ClearTimestamp\<close>: the epoch is retracted before
  the return, and at the return it is not published, whether or not it was published
  before the call.
\<close>

theorem lookup_found_epoch_retracted:
  fixes X :: "TransactionId \<Rightarrow> 'snap \<Rightarrow> bool"
  assumes "VChainLookupLocator X part_of k snap s = Some (tr, Found p)"
  shows "(\<exists>tr'. tr = tr' @ [EvLoad p, EvClearTimestamp]) \<and> \<not> epoch_published b tr"
proof -
  note sh = lookup_shape[OF assms]
  from sh obtain a where a: "vchain_hash s k = Some a"
    by (cases "vchain_hash s k") auto
  with sh obtain ps where tr: "tr = [EvLWLockAcquire (part_of k) LW_SHARED, EvHashLookup k,
      EvLWLockRelease (part_of k), EvSetTimestamp] @ map EvLoad (a # ps) @ [EvClearTimestamp]"
    and ps: "ps \<noteq> []" "last ps = p"
    by auto
  from ps have "ps = butlast ps @ [p]" by (metis append_butlast_last_id)
  then have "map EvLoad (a # ps) = map EvLoad (a # butlast ps) @ [EvLoad p]"
    by (metis list.simps(8,9) map_append Cons_eq_appendI)
  with tr have "tr = ([EvLWLockAcquire (part_of k) LW_SHARED, EvHashLookup k,
      EvLWLockRelease (part_of k), EvSetTimestamp] @ map EvLoad (a # butlast ps)) @
      [EvLoad p, EvClearTimestamp]"
    by simp
  then have 1: "\<exists>tr'. tr = tr' @ [EvLoad p, EvClearTimestamp]" by (rule exI)
  from tr have "tr = ([EvLWLockAcquire (part_of k) LW_SHARED, EvHashLookup k,
      EvLWLockRelease (part_of k), EvSetTimestamp] @ map EvLoad (a # ps)) @ [EvClearTimestamp]"
    by simp
  then have 2: "\<not> epoch_published b tr"
    by (simp only: epoch_published_clear) simp
  from 1 2 show ?thesis ..
qed

theorem lookup_found_epoch_retracted_witness:
  "VChainLookupLocator ex_in_snapshot ex_part 7 [] ex_shmem =
     Some ([EvLWLockAcquire 0 LW_SHARED, EvHashLookup 7, EvLWLockRelease 0, EvSetTimestamp,
            EvLoad 1, EvLoad 3, EvClearTimestamp], Found 3) \<and>
   \<not> epoch_published True [EvLWLockAcquire 0 LW_SHARED, EvHashLookup 7, EvLWLockRelease 0,
     EvSetTimestamp, EvLoad 1, EvLoad 3, EvClearTimestamp]"
proof -
  have r: "VChainLookupLocator ex_in_snapshot ex_part 7 [] ex_shmem =
     Some ([EvLWLockAcquire 0 LW_SHARED, EvHashLookup 7, EvLWLockRelease 0, EvSetTimestamp,
            EvLoad 1, EvLoad 3, EvClearTimestamp], Found 3)"
    by (simp add: VChainLookupLocator_def ex_shmem_def ex_arena_def node_def Let_def
        ex_in_snapshot_def lookup_walk.simps ex_part_def)
  from lookup_found_epoch_retracted[OF r, of True] r show ?thesis by blast
qed

subsection \<open>The order of the stores of the fix-up\<close>

text \<open>
  C5. \<^verbatim>\<open>VChainFixUpOne(mid)\<close> reads the links of \<open>mid\<close>, then stores
  \<open>prev->dsap_next = mid->dsap_next\<close>, then \<open>next->dsap_prev = mid->dsap_prev\<close>, then issues
  the memory barrier, and stamps \<open>mid->timestamp\<close> with the current time after the barrier.
  These are all its events: it makes no other store, no call to the hash table and frees
  nothing; the arena after the call differs from the one before by exactly these three
  stores.
\<close>

theorem fixup_unlink_then_stamp:
  "VChainFixUpOne now mid (tr, h) =
     (let dp = dsap_prev (h mid);
          dn = dsap_next (h mid);
          h1 = h(dp := (h dp)\<lparr>dsap_next := dn\<rparr>);
          h2 = h1(dn := (h1 dn)\<lparr>dsap_prev := dp\<rparr>);
          h3 = h2(mid := (h2 mid)\<lparr>timestamp := now\<rparr>)
      in (tr @ [EvLoad mid, EvStoreLink dp L_next dn, EvStoreLink dn L_prev dp, EvBarrier,
                EvStoreTimestamp mid now], h3))"
  by (simp add: VChainFixUpOne_def load_def store_link_def pg_memory_barrier_def
      store_timestamp_def Let_def)


subsection \<open>The steps of the appender, statement by statement\<close>

lemma step_lock_shared:
  "pc t = PC_lock_shared \<Longrightarrow> \<not> lw_exclusive (locks s (partition_lock t)) \<Longrightarrow>
   append_step alloc now s t =
     Some ([EvLWLockAcquire (partition_lock t) LW_SHARED],
           set_lock (partition_lock t)
             ((locks s (partition_lock t))\<lparr>lw_shared := Suc (lw_shared (locks s (partition_lock t)))\<rparr>) s,
           t\<lparr>pc := PC_hash_lookup\<rparr>)"
  by (simp add: append_step_def LWLockAcquire_def)

lemma step_hash_lookup_hit:
  "pc t = PC_hash_lookup \<Longrightarrow> vchain_hash s (primary_key t) = Some d \<Longrightarrow>
   append_step alloc now s t =
     Some ([EvHashLookup (primary_key t)], s, t\<lparr>dsap_chain := d, pc := PC_release_hit\<rparr>)"
  by (simp add: append_step_def)

lemma step_hash_lookup_miss:
  "pc t = PC_hash_lookup \<Longrightarrow> vchain_hash s (primary_key t) = None \<Longrightarrow>
   append_step alloc now s t =
     Some ([EvHashLookup (primary_key t)], s, t\<lparr>pc := PC_release_miss\<rparr>)"
  by (simp add: append_step_def)

lemma step_release_hit:
  "pc t = PC_release_hit \<Longrightarrow>
   append_step alloc now s t =
     Some ([EvLWLockRelease (partition_lock t)],
           set_lock (partition_lock t)
             ((locks s (partition_lock t))\<lparr>lw_shared := lw_shared (locks s (partition_lock t)) - 1\<rparr>) s,
           t\<lparr>pc := PC_retry\<rparr>)"
  by (simp add: append_step_def LWLockRelease_def)

lemma step_release_miss:
  "pc t = PC_release_miss \<Longrightarrow>
   append_step alloc now s t =
     Some ([EvLWLockRelease (partition_lock t)],
           set_lock (partition_lock t)
             ((locks s (partition_lock t))\<lparr>lw_shared := lw_shared (locks s (partition_lock t)) - 1\<rparr>) s,
           t\<lparr>pc := PC_lock_exclusive\<rparr>)"
  by (simp add: append_step_def LWLockRelease_def)

lemma step_lock_exclusive:
  "pc t = PC_lock_exclusive \<Longrightarrow>
   append_step alloc now s t =
     (if lw_exclusive (locks s (partition_lock t)) \<or> lw_shared (locks s (partition_lock t)) \<noteq> 0
      then None
      else Some ([EvLWLockAcquire (partition_lock t) LW_EXCLUSIVE],
                 set_lock (partition_lock t) ((locks s (partition_lock t))\<lparr>lw_exclusive := True\<rparr>) s,
                 t\<lparr>pc := PC_hash_insert\<rparr>))"
  by (simp add: append_step_def LWLockAcquire_def)

lemma step_hash_insert:
  "pc t = PC_hash_insert \<Longrightarrow>
   append_step alloc now s t =
     Some ([EvHashInsert (primary_key t)], snd (VChainHashInsert alloc (primary_key t) s),
           t\<lparr>dsap_chain := fst (VChainHashInsert alloc (primary_key t) s), pc := PC_release_insert\<rparr>)"
  by (simp add: append_step_def split: prod.splits)

lemma step_release_insert:
  "pc t = PC_release_insert \<Longrightarrow>
   append_step alloc now s t =
     Some ([EvLWLockRelease (partition_lock t)],
           set_lock (partition_lock t) ((locks s (partition_lock t))\<lparr>lw_exclusive := False\<rparr>) s,
           t\<lparr>pc := PC_retry\<rparr>)"
  by (simp add: append_step_def LWLockRelease_def)

lemma step_retry:
  "pc t = PC_retry \<Longrightarrow>
   append_step alloc now s t =
     Some ([EvLoad (dsap_chain t)], s,
           t\<lparr>dsap_tail_prev := dsap_prev (arena s (dsap_chain t)), pc := PC_xchg_append\<rparr>)"
  by (simp add: append_step_def)

lemma step_xchg_append:
  "pc t = PC_xchg_append \<Longrightarrow>
   append_step alloc now s t =
     Some (EvXchgFlag (dsap_tail_prev t) VL_APPEND (flag (arena s (dsap_tail_prev t))) #
             (if flag (arena s (dsap_tail_prev t)) = VL_APPEND then [EvAssertFail] else []),
           set_flag (dsap_tail_prev t) VL_APPEND s,
           t\<lparr>a_flag := flag (arena s (dsap_tail_prev t)),
             pc := (case flag (arena s (dsap_tail_prev t)) of
                      VL_DELETE \<Rightarrow> PC_spin
                    | VL_WINNER \<Rightarrow> PC_link_prev
                    | VL_APPEND \<Rightarrow> PC_assert_failed)\<rparr>)"
  by (cases "flag (arena s (dsap_tail_prev t))") (simp_all add: append_step_def Let_def)

lemma step_spin:
  "pc t = PC_spin \<Longrightarrow>
   append_step alloc now s t =
     Some ([EvFetchAdd (dsap_chain t)], s,
           t\<lparr>pc := (if dsap_tail_prev t = dsap_prev (arena s (dsap_chain t))
                    then PC_spin else PC_retry)\<rparr>)"
  by (simp add: append_step_def Let_def)

lemma step_link_prev:
  "pc t = PC_link_prev \<Longrightarrow>
   append_step alloc now s t =
     Some ([EvStoreLink (locator t) L_prev (dsap_tail_prev t)],
           s\<lparr>arena := (arena s)(locator t := (arena s (locator t))\<lparr>dsap_prev := dsap_tail_prev t\<rparr>)\<rparr>,
           t\<lparr>pc := PC_link_next\<rparr>)"
  by (simp add: append_step_def do_store_link_def store_link_def)

lemma step_link_next:
  "pc t = PC_link_next \<Longrightarrow>
   append_step alloc now s t =
     Some ([EvStoreLink (locator t) L_next (dsap (arena s (dsap_chain t)))],
           s\<lparr>arena := (arena s)(locator t :=
                (arena s (locator t))\<lparr>dsap_next := dsap (arena s (dsap_chain t))\<rparr>)\<rparr>,
           t\<lparr>pc := PC_link_tail\<rparr>)"
  by (simp add: append_step_def do_store_link_def store_link_def)

lemma step_link_tail:
  "pc t = PC_link_tail \<Longrightarrow>
   append_step alloc now s t =
     Some ([EvStoreLink (dsap_tail_prev t) L_next (dsap (arena s (locator t)))],
           s\<lparr>arena := (arena s)(dsap_tail_prev t :=
                (arena s (dsap_tail_prev t))\<lparr>dsap_next := dsap (arena s (locator t))\<rparr>)\<rparr>,
           t\<lparr>pc := PC_link_chain\<rparr>)"
  by (simp add: append_step_def do_store_link_def store_link_def)

lemma step_link_chain:
  "pc t = PC_link_chain \<Longrightarrow>
   append_step alloc now s t =
     Some ([EvStoreLink (dsap_chain t) L_prev (dsap (arena s (locator t)))],
           s\<lparr>arena := (arena s)(dsap_chain t :=
                (arena s (dsap_chain t))\<lparr>dsap_prev := dsap (arena s (locator t))\<rparr>)\<rparr>,
           t\<lparr>pc := PC_xchg_winner\<rparr>)"
  by (simp add: append_step_def do_store_link_def store_link_def)

lemma step_xchg_winner:
  "pc t = PC_xchg_winner \<Longrightarrow>
   append_step alloc now s t =
     Some ([EvXchgFlag (dsap_tail_prev t) VL_WINNER (flag (arena s (dsap_tail_prev t)))],
           set_flag (dsap_tail_prev t) VL_WINNER s,
           t\<lparr>a_flag := flag (arena s (dsap_tail_prev t)),
             pc := (if flag (arena s (dsap_tail_prev t)) = VL_DELETE then PC_fixup else PC_done)\<rparr>)"
  by (simp add: append_step_def Let_def)


lemma run_stop:
  "pc t = PC_done \<or> pc t = PC_assert_failed \<Longrightarrow> append_run alloc now s t tr = Some (tr, s, t)"
  by (subst append_run.simps) simp

lemma step_None_iff_stopped:
  "pc t = PC_done \<or> pc t = PC_assert_failed \<Longrightarrow> append_step alloc now s t = None"
  by (auto simp: append_step_def)

lemma run_step:
  assumes "append_step alloc now s t = Some (ev, s', t')"
  shows "append_run alloc now s t tr = append_run alloc now s' t' (tr @ ev)"
proof -
  from assms have "\<not> (pc t = PC_done \<or> pc t = PC_assert_failed)"
    using step_None_iff_stopped[of t alloc now s] by auto
  with assms show ?thesis by (subst append_run.simps) simp
qed

lemma run_steps:
  "append_steps alloc now n s t = Some (ev, s', t') \<Longrightarrow>
   append_run alloc now s t tr = append_run alloc now s' t' (tr @ ev)"
proof (induction n arbitrary: s t tr ev)
  case 0
  then show ?case by simp
next
  case (Suc n)
  from Suc.prems obtain ev1 s1 t1 ev2 where
    1: "append_step alloc now s t = Some (ev1, s1, t1)" and
    2: "append_steps alloc now n s1 t1 = Some (ev2, s', t')" and e: "ev = ev1 @ ev2"
    by (auto split: option.splits)
  from run_step[OF 1] Suc.IH[OF 2] e show ?case by simp
qed


subsection \<open>The exchange on the flag of the tail\<close>

text \<open>
  C2. The claim: the flag captured by the exchange at the tail is \<^verbatim>\<open>VL_DELETE\<close> or
  \<^verbatim>\<open>VL_WINNER\<close>, so that \<^verbatim>\<open>assert(flag == VL_WINNER)\<close> cannot fail. The code, for two
  appenders of the key 9 that both read the same tail (the dummy node at offset 4) before
  either of them exchanges: each takes the shared lock, looks the key up, releases the lock
  and reads \<open>dsap_prev\<close> of the dummy node; then the first exchange captures
  \<^verbatim>\<open>VL_WINNER\<close> and leaves \<^verbatim>\<open>VL_APPEND\<close>, and the second exchange captures that
  \<^verbatim>\<open>VL_APPEND\<close>. It is not \<^verbatim>\<open>VL_DELETE\<close>, so the second appender goes on to the path
  of the winner, and there its assertion fails.
\<close>

theorem append_exchange_assert_fails:
  "sched_outcome ex_alloc 0 [0, 0, 0, 0, 1, 1, 1, 1, 0, 1] ex_two_appenders 4 =
     Some ([PC_link_prev, PC_assert_failed], [VL_WINNER, VL_APPEND], [])"
  by code_simp

subsection \<open>The loser of the exchange\<close>

text \<open>
  C10. When the exchange captures \<^verbatim>\<open>VL_DELETE\<close>, the flag of the tail is \<^verbatim>\<open>VL_APPEND\<close>
  afterwards and the appender is in the spin loop. While \<open>dsap_prev\<close> of the dummy node
  still is that tail, a step of the appender leaves shared memory as it is. Once it
  differs, two steps take the appender back to the exchange, with the new value of
  \<open>dsap_prev\<close> of the dummy node as the tail; these steps leave shared memory as it is,
  too. So the appender never stores to the flag of the old tail again.
\<close>

theorem append_loser_leaves_mark:
  assumes "pc t = PC_xchg_append" and "flag (arena s (dsap_tail_prev t)) = VL_DELETE"
  shows "\<exists>t1. append_step alloc now s t =
            Some ([EvXchgFlag (dsap_tail_prev t) VL_APPEND VL_DELETE],
                  set_flag (dsap_tail_prev t) VL_APPEND s, t1) \<and>
          pc t1 = PC_spin \<and>
          flag (arena (set_flag (dsap_tail_prev t) VL_APPEND s) (dsap_tail_prev t)) = VL_APPEND \<and>
          (\<forall>g. dsap_prev (arena g (dsap_chain t)) = dsap_tail_prev t \<longrightarrow>
             append_step alloc now g t1 = Some ([EvFetchAdd (dsap_chain t)], g, t1)) \<and>
          (\<forall>g. dsap_prev (arena g (dsap_chain t)) \<noteq> dsap_tail_prev t \<longrightarrow>
             append_steps alloc now 2 g t1 =
               Some ([EvFetchAdd (dsap_chain t), EvLoad (dsap_chain t)], g,
                     t1\<lparr>dsap_tail_prev := dsap_prev (arena g (dsap_chain t)),
                        pc := PC_xchg_append\<rparr>))"
  using assms
  by (simp add: step_xchg_append step_spin step_retry eval_nat_numeral set_flag_def)


theorem append_loser_leaves_mark_witness:
  "pc ex_at_xchg = PC_xchg_append \<and> flag (arena ex_shmem_delete (dsap_tail_prev ex_at_xchg)) = VL_DELETE \<and>
   dsap_prev (arena ex_shmem_cut (dsap_chain ex_at_xchg)) \<noteq> dsap_tail_prev ex_at_xchg \<and>
   (\<exists>t1. append_step ex_alloc 0 ex_shmem_delete ex_at_xchg =
      Some ([EvXchgFlag 3 VL_APPEND VL_DELETE], set_flag 3 VL_APPEND ex_shmem_delete, t1) \<and>
      flag (arena (set_flag 3 VL_APPEND ex_shmem_delete) 3) = VL_APPEND \<and>
      append_steps ex_alloc 0 2 ex_shmem_cut t1 =
        Some ([EvFetchAdd 1, EvLoad 1], ex_shmem_cut,
              t1\<lparr>dsap_tail_prev := 2, pc := PC_xchg_append\<rparr>))"
proof -
  have p: "pc ex_at_xchg = PC_xchg_append"
    by (simp add: ex_at_xchg_def)
  have f: "flag (arena ex_shmem_delete (dsap_tail_prev ex_at_xchg)) = VL_DELETE"
    by (simp add: ex_at_xchg_def ex_shmem_delete_def set_flag_def)
  have v: "dsap_tail_prev ex_at_xchg = 3" "dsap_chain ex_at_xchg = 1"
    by (simp_all add: ex_at_xchg_def)
  have g: "dsap_prev (arena ex_shmem_cut 1) = 2"
    by (simp add: ex_shmem_cut_def set_flag_def ex_shmem_def ex_arena_def node_def
        VChainFixUpOne_def load_def store_link_def pg_memory_barrier_def store_timestamp_def)
  from append_loser_leaves_mark[OF p f, of ex_alloc 0] p f g show ?thesis
    unfolding v by auto
qed

subsection \<open>The four link stores\<close>

text \<open>
  C3. An appender that has won the exchange performs, in its next four steps, the stores
  \<open>locator->dsap_prev = dsap_tail_prev\<close>, \<open>locator->dsap_next = chain->dsap\<close>,
  \<open>tail_prev->dsap_next = locator->dsap\<close> and \<open>chain->dsap_prev = locator->dsap\<close>, in this
  order and nothing else, and then stands at the second exchange; the store to
  \<open>dsap_prev\<close> of the dummy node is the last of the four. When the call runs alone from the
  first exchange, on a tail whose flag is idle, it returns, and all it does is the exchange,
  these four stores and the second exchange.
\<close>

theorem append_link_order:
  "(pc t = PC_link_prev \<longrightarrow>
      append_steps alloc now 4 s t =
        (let h1 = (arena s)(locator t := (arena s (locator t))\<lparr>dsap_prev := dsap_tail_prev t\<rparr>);
             h2 = h1(locator t := (h1 (locator t))\<lparr>dsap_next := dsap (h1 (dsap_chain t))\<rparr>);
             h3 = h2(dsap_tail_prev t := (h2 (dsap_tail_prev t))\<lparr>dsap_next := dsap (h2 (locator t))\<rparr>);
             h4 = h3(dsap_chain t := (h3 (dsap_chain t))\<lparr>dsap_prev := dsap (h3 (locator t))\<rparr>)
         in Some ([EvStoreLink (locator t) L_prev (dsap_tail_prev t),
                   EvStoreLink (locator t) L_next (dsap (arena s (dsap_chain t))),
                   EvStoreLink (dsap_tail_prev t) L_next (dsap (arena s (locator t))),
                   EvStoreLink (dsap_chain t) L_prev (dsap (arena s (locator t)))],
                  s\<lparr>arena := h4\<rparr>, t\<lparr>pc := PC_xchg_winner\<rparr>))) \<and>
   (pc t = PC_xchg_append \<and> flag (arena s (dsap_tail_prev t)) = VL_WINNER \<longrightarrow>
      (\<exists>s'. append_run alloc now s t tr =
         Some (tr @ [EvXchgFlag (dsap_tail_prev t) VL_APPEND VL_WINNER,
                     EvStoreLink (locator t) L_prev (dsap_tail_prev t),
                     EvStoreLink (locator t) L_next (dsap (arena s (dsap_chain t))),
                     EvStoreLink (dsap_tail_prev t) L_next (dsap (arena s (locator t))),
                     EvStoreLink (dsap_chain t) L_prev (dsap (arena s (locator t))),
                     EvXchgFlag (dsap_tail_prev t) VL_WINNER VL_APPEND],
               s', t\<lparr>a_flag := VL_APPEND, pc := PC_done\<rparr>)))"
proof (intro conjI impI)
  assume "pc t = PC_link_prev"
  then show "append_steps alloc now 4 s t =
        (let h1 = (arena s)(locator t := (arena s (locator t))\<lparr>dsap_prev := dsap_tail_prev t\<rparr>);
             h2 = h1(locator t := (h1 (locator t))\<lparr>dsap_next := dsap (h1 (dsap_chain t))\<rparr>);
             h3 = h2(dsap_tail_prev t := (h2 (dsap_tail_prev t))\<lparr>dsap_next := dsap (h2 (locator t))\<rparr>);
             h4 = h3(dsap_chain t := (h3 (dsap_chain t))\<lparr>dsap_prev := dsap (h3 (locator t))\<rparr>)
         in Some ([EvStoreLink (locator t) L_prev (dsap_tail_prev t),
                   EvStoreLink (locator t) L_next (dsap (arena s (dsap_chain t))),
                   EvStoreLink (dsap_tail_prev t) L_next (dsap (arena s (locator t))),
                   EvStoreLink (dsap_chain t) L_prev (dsap (arena s (locator t)))],
                  s\<lparr>arena := h4\<rparr>, t\<lparr>pc := PC_xchg_winner\<rparr>))"
    by (simp add: eval_nat_numeral step_link_prev step_link_next step_link_tail step_link_chain
        Let_def)
next
  assume a: "pc t = PC_xchg_append \<and> flag (arena s (dsap_tail_prev t)) = VL_WINNER"
  then have "\<exists>s'. append_steps alloc now 6 s t =
         Some ([EvXchgFlag (dsap_tail_prev t) VL_APPEND VL_WINNER,
                EvStoreLink (locator t) L_prev (dsap_tail_prev t),
                EvStoreLink (locator t) L_next (dsap (arena s (dsap_chain t))),
                EvStoreLink (dsap_tail_prev t) L_next (dsap (arena s (locator t))),
                EvStoreLink (dsap_chain t) L_prev (dsap (arena s (locator t))),
                EvXchgFlag (dsap_tail_prev t) VL_WINNER VL_APPEND],
               s', t\<lparr>a_flag := VL_APPEND, pc := PC_done\<rparr>)"
    by (simp add: eval_nat_numeral step_xchg_append step_link_prev step_link_next step_link_tail
        step_link_chain step_xchg_winner set_flag_def)
  then obtain s' where "append_steps alloc now 6 s t =
         Some ([EvXchgFlag (dsap_tail_prev t) VL_APPEND VL_WINNER,
                EvStoreLink (locator t) L_prev (dsap_tail_prev t),
                EvStoreLink (locator t) L_next (dsap (arena s (dsap_chain t))),
                EvStoreLink (dsap_tail_prev t) L_next (dsap (arena s (locator t))),
                EvStoreLink (dsap_chain t) L_prev (dsap (arena s (locator t))),
                EvXchgFlag (dsap_tail_prev t) VL_WINNER VL_APPEND],
               s', t\<lparr>a_flag := VL_APPEND, pc := PC_done\<rparr>)" ..
  from run_steps[OF this, of tr]
  show "\<exists>s'. append_run alloc now s t tr =
         Some (tr @ [EvXchgFlag (dsap_tail_prev t) VL_APPEND VL_WINNER,
                     EvStoreLink (locator t) L_prev (dsap_tail_prev t),
                     EvStoreLink (locator t) L_next (dsap (arena s (dsap_chain t))),
                     EvStoreLink (dsap_tail_prev t) L_next (dsap (arena s (locator t))),
                     EvStoreLink (dsap_chain t) L_prev (dsap (arena s (locator t))),
                     EvXchgFlag (dsap_tail_prev t) VL_WINNER VL_APPEND],
               s', t\<lparr>a_flag := VL_APPEND, pc := PC_done\<rparr>)"
    by (simp add: run_stop)
qed

theorem append_link_order_witness:
  "pc (ex_at_xchg\<lparr>pc := PC_link_prev\<rparr>) = PC_link_prev \<and>
   map_option fst (append_steps ex_alloc 0 4 ex_shmem (ex_at_xchg\<lparr>pc := PC_link_prev\<rparr>)) =
     Some [EvStoreLink 5 L_prev 3, EvStoreLink 5 L_next 1, EvStoreLink 3 L_next 5,
           EvStoreLink 1 L_prev 5] \<and>
   pc ex_at_xchg = PC_xchg_append \<and> flag (arena ex_shmem (dsap_tail_prev ex_at_xchg)) = VL_WINNER \<and>
   map_option fst (append_run ex_alloc 0 ex_shmem ex_at_xchg []) =
     Some [EvXchgFlag 3 VL_APPEND VL_WINNER, EvStoreLink 5 L_prev 3, EvStoreLink 5 L_next 1,
           EvStoreLink 3 L_next 5, EvStoreLink 1 L_prev 5, EvXchgFlag 3 VL_WINNER VL_APPEND]"
proof -
  have p: "pc (ex_at_xchg\<lparr>pc := PC_link_prev\<rparr>) = PC_link_prev"
    by simp
  have q: "pc ex_at_xchg = PC_xchg_append \<and> flag (arena ex_shmem (dsap_tail_prev ex_at_xchg)) = VL_WINNER"
    by (simp add: ex_at_xchg_def ex_shmem_def ex_arena_def node_def)
  have v: "locator ex_at_xchg = 5" "dsap_tail_prev ex_at_xchg = 3" "dsap_chain ex_at_xchg = 1"
    "dsap (arena ex_shmem 1) = 1" "dsap (arena ex_shmem 5) = 5"
    by (simp_all add: ex_at_xchg_def append_init_def ex_shmem_def ex_arena_def node_def)
  from append_link_order[of "ex_at_xchg\<lparr>pc := PC_link_prev\<rparr>" ex_alloc 0 ex_shmem, THEN conjunct1,
      rule_format, OF p]
  have a: "map_option fst (append_steps ex_alloc 0 4 ex_shmem (ex_at_xchg\<lparr>pc := PC_link_prev\<rparr>)) =
     Some [EvStoreLink 5 L_prev 3, EvStoreLink 5 L_next 1, EvStoreLink 3 L_next 5,
           EvStoreLink 1 L_prev 5]"
    by (simp add: Let_def v)
  from append_link_order[of ex_at_xchg ex_alloc 0 ex_shmem "[]", THEN conjunct2, rule_format, OF q]
  have b: "map_option fst (append_run ex_alloc 0 ex_shmem ex_at_xchg []) =
     Some [EvXchgFlag 3 VL_APPEND VL_WINNER, EvStoreLink 5 L_prev 3, EvStoreLink 5 L_next 1,
           EvStoreLink 3 L_next 5, EvStoreLink 1 L_prev 5, EvXchgFlag 3 VL_WINNER VL_APPEND]"
    by (auto simp: v)
  from p q a b show ?thesis by blast
qed


subsection \<open>The second exchange and the deferred removal\<close>




subsection \<open>Creating the dummy node\<close>

text \<open>
  C6. After a miss of the lookup under the shared lock, the appender releases the lock,
  waits until it can take the lock exclusively, and calls \<^verbatim>\<open>VChainHashInsert\<close>. Whatever
  has happened to the table in between: when the key has a dummy node by then, the insert
  returns that node and changes nothing; when it has none, the insert enters a fresh empty
  chain for the key. Either way the entries of other keys stay, and the key has the one
  dummy node that the appender goes on with.
\<close>

theorem append_get_or_create:
  "(pc t = PC_hash_lookup \<and> vchain_hash s (primary_key t) = None \<longrightarrow>
      append_steps alloc now 2 s t =
        Some ([EvHashLookup (primary_key t), EvLWLockRelease (partition_lock t)],
              set_lock (partition_lock t) (LWLockRelease LW_SHARED (locks s (partition_lock t))) s,
              t\<lparr>pc := PC_lock_exclusive\<rparr>)) \<and>
   (pc t = PC_lock_exclusive \<longrightarrow>
      append_step alloc now s t =
        (if lw_exclusive (locks s (partition_lock t)) \<or> lw_shared (locks s (partition_lock t)) \<noteq> 0
         then None
         else Some ([EvLWLockAcquire (partition_lock t) LW_EXCLUSIVE],
                    set_lock (partition_lock t) ((locks s (partition_lock t))\<lparr>lw_exclusive := True\<rparr>) s,
                    t\<lparr>pc := PC_hash_insert\<rparr>))) \<and>
   (pc t = PC_hash_insert \<longrightarrow>
      (\<exists>s' d. append_step alloc now s t =
                 Some ([EvHashInsert (primary_key t)], s', t\<lparr>dsap_chain := d, pc := PC_release_insert\<rparr>) \<and>
               vchain_hash s' (primary_key t) = Some d \<and>
               (\<forall>k. k \<noteq> primary_key t \<longrightarrow> vchain_hash s' k = vchain_hash s k) \<and>
               (\<forall>d0. vchain_hash s (primary_key t) = Some d0 \<longrightarrow> s' = s \<and> d = d0) \<and>
               (vchain_hash s (primary_key t) = None \<longrightarrow>
                  d = alloc s \<and> wf_chain (arena s') d [] \<and> flag (arena s' d) = VL_WINNER)))"
proof (intro conjI impI)
  assume "pc t = PC_hash_lookup \<and> vchain_hash s (primary_key t) = None"
  then show "append_steps alloc now 2 s t =
        Some ([EvHashLookup (primary_key t), EvLWLockRelease (partition_lock t)],
              set_lock (partition_lock t) (LWLockRelease LW_SHARED (locks s (partition_lock t))) s,
              t\<lparr>pc := PC_lock_exclusive\<rparr>)"
    by (simp add: eval_nat_numeral step_hash_lookup_miss step_release_miss LWLockRelease_def)
next
  assume "pc t = PC_lock_exclusive"
  then show "append_step alloc now s t =
        (if lw_exclusive (locks s (partition_lock t)) \<or> lw_shared (locks s (partition_lock t)) \<noteq> 0
         then None
         else Some ([EvLWLockAcquire (partition_lock t) LW_EXCLUSIVE],
                    set_lock (partition_lock t) ((locks s (partition_lock t))\<lparr>lw_exclusive := True\<rparr>) s,
                    t\<lparr>pc := PC_hash_insert\<rparr>))"
    by (rule step_lock_exclusive)
next
  assume p: "pc t = PC_hash_insert"
  show "\<exists>s' d. append_step alloc now s t =
                 Some ([EvHashInsert (primary_key t)], s', t\<lparr>dsap_chain := d, pc := PC_release_insert\<rparr>) \<and>
               vchain_hash s' (primary_key t) = Some d \<and>
               (\<forall>k. k \<noteq> primary_key t \<longrightarrow> vchain_hash s' k = vchain_hash s k) \<and>
               (\<forall>d0. vchain_hash s (primary_key t) = Some d0 \<longrightarrow> s' = s \<and> d = d0) \<and>
               (vchain_hash s (primary_key t) = None \<longrightarrow>
                  d = alloc s \<and> wf_chain (arena s') d [] \<and> flag (arena s' d) = VL_WINNER)"
  proof (cases "vchain_hash s (primary_key t)")
    case None
    then show ?thesis
      by (simp add: step_hash_insert[OF p] VChainHashInsert_def Let_def wf_chain_def)
  next
    case (Some d0)
    then show ?thesis
      by (simp add: step_hash_insert[OF p] VChainHashInsert_def)
  qed
qed


theorem append_get_or_create_witness:
  "pc ex_at_insert = PC_hash_insert \<and> vchain_hash ex_shmem (primary_key ex_at_insert) = None \<and>
   (\<exists>s'. append_step ex_alloc 0 ex_shmem ex_at_insert =
      Some ([EvHashInsert 8], s', ex_at_insert\<lparr>dsap_chain := 100, pc := PC_release_insert\<rparr>) \<and>
      vchain_hash s' 8 = Some 100 \<and> wf_chain (arena s') 100 [] \<and>
      append_step ex_alloc 0 s' (ex_at_insert\<lparr>locator := 6\<rparr>) =
        Some ([EvHashInsert 8], s',
              ex_at_insert\<lparr>locator := 6, dsap_chain := 100, pc := PC_release_insert\<rparr>))"
proof -
  have p: "pc ex_at_insert = PC_hash_insert" "pc (ex_at_insert\<lparr>locator := 6\<rparr>) = PC_hash_insert"
    by (simp_all add: ex_at_insert_def)
  have k: "primary_key ex_at_insert = 8" "primary_key (ex_at_insert\<lparr>locator := 6\<rparr>) = 8"
    by (simp_all add: ex_at_insert_def append_init_def)
  have n: "vchain_hash ex_shmem 8 = None"
    by (simp add: ex_shmem_def)
  from append_get_or_create[of ex_at_insert ex_shmem ex_alloc 0, THEN conjunct2, THEN conjunct2,
      rule_format, OF p(1)]
  obtain s' d where
    1: "append_step ex_alloc 0 ex_shmem ex_at_insert =
          Some ([EvHashInsert 8], s', ex_at_insert\<lparr>dsap_chain := d, pc := PC_release_insert\<rparr>)"
    and 2: "vchain_hash s' 8 = Some d"
    and 3: "d = ex_alloc ex_shmem \<and> wf_chain (arena s') d [] \<and> flag (arena s' d) = VL_WINNER"
    using n unfolding k by auto
  have d: "d = 100" using 3 by (simp add: ex_alloc_def)
  from append_get_or_create[of "ex_at_insert\<lparr>locator := 6\<rparr>" s' ex_alloc 0, THEN conjunct2,
      THEN conjunct2, rule_format, OF p(2)]
  have 4: "append_step ex_alloc 0 s' (ex_at_insert\<lparr>locator := 6\<rparr>) =
        Some ([EvHashInsert 8], s',
              ex_at_insert\<lparr>locator := 6, dsap_chain := 100, pc := PC_release_insert\<rparr>)"
    using 2 unfolding k d by auto
  from p(1) n 1 2 3 4 show ?thesis unfolding k d by blast
qed


text \<open>
  The race itself, on the example: two appenders for the key 8 both miss under the shared
  lock and both release it; then each in turn takes the lock exclusively, calls the insert
  and releases. The second insert finds the dummy node of the first (offset 100). Both
  calls then append to that one chain, which ends up with the locators 5 and 6.
\<close>

lemma insert_race_one_anchor:
  "sched_outcome ex_alloc 0
     [0, 0, 1, 1, 0, 1, 0, 0, 0, 1, 1, 1, 0, 0, 0, 0, 0, 0, 0, 1, 1, 1, 1, 1, 1, 1]
     ex_two_creators 100 =
     Some ([PC_done, PC_done], [VL_APPEND, VL_APPEND], [5, 6])"
  by code_simp

subsection \<open>Appends one after the other, and appends that overlap\<close>

lemma append_effect_dsap: "dsap (append_effect h a tp n p) = dsap (h p)"
  by (simp add: append_effect_def Let_def)

lemma append_effect_flag:
  "flag (h tp) = VL_WINNER \<Longrightarrow> flag (append_effect h a tp n p) = flag (h p)"
  by (simp add: append_effect_def Let_def)

lemma append_effect_next:
  "n \<noteq> tp \<Longrightarrow> dsap_next (append_effect h a tp n p) =
     (if p = tp then dsap (h n) else if p = n then dsap (h a) else dsap_next (h p))"
  by (simp add: append_effect_def Let_def)

lemma append_effect_prev:
  "n \<noteq> a \<Longrightarrow> dsap_prev (append_effect h a tp n p) =
     (if p = a then dsap (h n) else if p = n then tp else dsap_prev (h p))"
  by (simp add: append_effect_def Let_def)

lemma links_cong:
  "\<forall>p\<in>set (butlast ps). dsap_next (h' p) = dsap_next (h p) \<Longrightarrow>
   \<forall>p\<in>set (tl ps). dsap_prev (h' p) = dsap_prev (h p) \<Longrightarrow> links h' ps = links h ps"
  by (induction h ps rule: links.induct) auto

lemma append_effect_wf:
  assumes wf: "wf_chain h a xs" and n: "n \<notin> set (a # xs)" and sn: "dsap (h n) = n"
  shows "wf_chain (append_effect h a (last (a # xs)) n) a (xs @ [n])"
proof -
  define tp where "tp = last (a # xs)"
  define h' where "h' = append_effect h a tp n"
  from wf have d: "distinct (a # xs)" and s: "list_all (\<lambda>p. dsap (h p) = p) (a # xs)"
    and l: "links h (a # xs)" and sa: "dsap (h a) = a"
    using wf_chain_tail[OF wf] by (simp_all add: wf_chain_def)
  have tp: "tp \<in> set (a # xs)" unfolding tp_def by (rule last_in_set) simp
  with n have ntp: "n \<noteq> tp" by metis
  from n have na: "n \<noteq> a" by simp
  have ax: "a # xs = butlast (a # xs) @ [tp]"
    unfolding tp_def by (rule append_butlast_last_id[symmetric]) simp
  have tb: "tp \<notin> set (butlast (a # xs))"
    using d by (subst (asm) ax) simp
  note nx = append_effect_next[OF ntp, of h a, folded h'_def]
  note pv = append_effect_prev[OF na, of h tp, folded h'_def]
  have l': "links h' (a # xs)"
  proof -
    have "links h' (a # xs) = links h (a # xs)"
    proof (rule links_cong)
      show "\<forall>p\<in>set (butlast (a # xs)). dsap_next (h' p) = dsap_next (h p)"
      proof
        fix p assume p: "p \<in> set (butlast (a # xs))"
        with tb have "p \<noteq> tp" by metis
        moreover from p n have "p \<noteq> n" by (metis in_set_butlastD)
        ultimately show "dsap_next (h' p) = dsap_next (h p)" by (simp add: nx)
      qed
      show "\<forall>p\<in>set (tl (a # xs)). dsap_prev (h' p) = dsap_prev (h p)"
      proof
        fix p assume p: "p \<in> set (tl (a # xs))"
        with d have "p \<noteq> a" by auto
        moreover from p n have "p \<noteq> n" by auto
        ultimately show "dsap_prev (h' p) = dsap_prev (h p)" by (simp add: pv)
      qed
    qed
    with l show ?thesis by simp
  qed
  have lt: "last (a # xs) = tp" by (simp add: tp_def)
  have 1: "links h' ((a # xs) @ [n])"
    unfolding links_snoc lt using l' sn na ntp by (simp add: nx pv)
  have "links h' (((a # xs) @ [n]) @ [a])"
    unfolding links_snoc[of h' "(a # xs) @ [n]"] using 1 sa sn na ntp by (simp add: nx pv)
  then have 2: "links h' (a # (xs @ [n]) @ [a])" by simp
  have 3: "list_all (\<lambda>p. dsap (h' p) = p) (a # xs @ [n])"
    using s sn by (simp add: h'_def append_effect_dsap)
  from d n have 4: "distinct (a # xs @ [n])" by auto
  from 2 3 4 show ?thesis unfolding wf_chain_def h'_def tp_def by simp
qed

lemma append_one_run:
  assumes hit: "vchain_hash s k = Some a" and fl: "flag (arena s (dsap_prev (arena s a))) = VL_WINNER"
    and lk: "\<not> lw_exclusive (locks s (part_of k))"
  shows "\<exists>tr t'. VChainAppendLocator alloc now part_of k n s =
           Some (tr, s\<lparr>arena := append_effect (arena s) a (dsap_prev (arena s a)) n\<rparr>, t') \<and>
           pc t' = PC_done"
proof -
  have "\<exists>tr t'. append_steps alloc now 10 s (append_init part_of k n) =
           Some (tr, s\<lparr>arena := append_effect (arena s) a (dsap_prev (arena s a)) n\<rparr>, t') \<and>
           pc t' = PC_done"
    using assms
    by (simp add: eval_nat_numeral append_init_def step_lock_shared step_hash_lookup_hit
        step_release_hit step_retry step_xchg_append step_link_prev step_link_next
        step_link_tail step_link_chain step_xchg_winner set_flag_def set_lock_def
        append_effect_def Let_def)
  then obtain tr t' where "append_steps alloc now 10 s (append_init part_of k n) =
           Some (tr, s\<lparr>arena := append_effect (arena s) a (dsap_prev (arena s a)) n\<rparr>, t')"
    and "pc t' = PC_done"
    by blast
  from run_steps[OF this(1), of "[]"] this(2) show ?thesis
    by (simp add: VChainAppendLocator_def run_stop)
qed


text \<open>
  C8, as the code has it. Calls of \<^verbatim>\<open>VChainAppendLocator\<close> for one key that run one after
  the other, each returning before the next one starts and with no cutter at work, all
  return, and they extend a well-formed chain by exactly the appended locators, in the
  order of the calls: the locators of the chain stay pairwise distinct and every
  \<open>dsap_next\<close> is answered by the \<open>dsap_prev\<close> of its target. Here \<open>xs\<close> are the versions
  before the calls and \<open>ns\<close> the locators appended; the locators are distinct, record
  their own offsets and have idle flags, the flag of the tail is idle, and the partition
  lock is not held exclusively.
\<close>

theorem append_all_chain:
  assumes hit: "vchain_hash s k = Some a" and wf: "wf_chain (arena s) a xs"
    and dist: "distinct (a # xs @ ns)"
    and fresh: "\<forall>n\<in>set ns. dsap (arena s n) = n \<and> flag (arena s n) = VL_WINNER"
    and idle: "flag (arena s (last (a # xs))) = VL_WINNER"
    and lk: "\<not> lw_exclusive (locks s (part_of k))"
  shows "\<exists>s'. append_all alloc now part_of k ns s = Some s' \<and>
              wf_chain (arena s') a (xs @ ns) \<and> vchain_hash s' = vchain_hash s"
  using assms
proof (induction ns arbitrary: s xs)
  case Nil
  then show ?case by simp
next
  case (Cons n ns)
  define tp where "tp = last (a # xs)"
  define s1 where "s1 = s\<lparr>arena := append_effect (arena s) a tp n\<rparr>"
  note t = wf_chain_tail[OF Cons.prems(2)]
  have tp: "dsap_prev (arena s a) = tp" using t(1) by (simp add: tp_def)
  from Cons.prems(5) have fl: "flag (arena s (dsap_prev (arena s a))) = VL_WINNER"
    unfolding tp tp_def .
  from append_one_run[where part_of = part_of and alloc = alloc and now = now and n = n,
      OF Cons.prems(1) fl Cons.prems(6)]
  obtain tr t' where run: "VChainAppendLocator alloc now part_of k n s = Some (tr, s1, t')"
    and fin: "pc t' = PC_done"
    unfolding tp s1_def by blast
  from Cons.prems(3) have nn: "n \<notin> set (a # xs)" by auto
  from Cons.prems(4) have sn: "dsap (arena s n) = n" and fn: "flag (arena s n) = VL_WINNER"
    by simp_all
  have wf1: "wf_chain (arena s1) a (xs @ [n])"
    using append_effect_wf[OF Cons.prems(2) nn sn] by (simp add: s1_def tp_def)
  have hit1: "vchain_hash s1 k = Some a" using Cons.prems(1) by (simp add: s1_def)
  have dist1: "distinct (a # (xs @ [n]) @ ns)" using Cons.prems(3) by auto
  have idle0: "flag (arena s tp) = VL_WINNER" using Cons.prems(5) by (simp add: tp_def)
  note ef = append_effect_flag[where h = "arena s" and tp = tp, OF idle0]
  have fresh1: "\<forall>m\<in>set ns. dsap (arena s1 m) = m \<and> flag (arena s1 m) = VL_WINNER"
    using Cons.prems(4) by (simp add: s1_def append_effect_dsap ef)
  have idle1: "flag (arena s1 (last (a # xs @ [n]))) = VL_WINNER"
    using fn by (simp add: s1_def ef)
  have lk1: "\<not> lw_exclusive (locks s1 (part_of k))" using Cons.prems(6) by (simp add: s1_def)
  from Cons.IH[of s1 "xs @ [n]", OF hit1 wf1 dist1 fresh1 idle1 lk1]
  obtain s' where "append_all alloc now part_of k ns s1 = Some s'"
    and "wf_chain (arena s') a ((xs @ [n]) @ ns)" and "vchain_hash s' = vchain_hash s1"
    by blast
  then show ?case using run fin by (simp add: s1_def)
qed


theorem append_all_chain_witness:
  "vchain_hash ex_shmem 9 = Some 4 \<and> wf_chain (arena ex_shmem) 4 [] \<and>
   distinct (4 # [] @ [5, 6 :: dsa_pointer]) \<and>
   dsap (arena ex_shmem 5) = 5 \<and> flag (arena ex_shmem 5) = VL_WINNER \<and>
   dsap (arena ex_shmem 6) = 6 \<and> flag (arena ex_shmem 6) = VL_WINNER \<and>
   flag (arena ex_shmem (last (4 # []))) = VL_WINNER \<and>
   \<not> lw_exclusive (locks ex_shmem (ex_part 9)) \<and>
   (\<exists>s'. append_all ex_alloc 0 ex_part 9 [5, 6] ex_shmem = Some s' \<and>
         wf_chain (arena s') 4 [5, 6])"
proof -
  have 1: "vchain_hash ex_shmem 9 = Some 4"
    by (simp add: ex_shmem_def)
  have 2: "wf_chain (arena ex_shmem) 4 []"
    by (simp add: wf_chain_def ex_shmem_def ex_arena_def node_def)
  have 3: "distinct (4 # [] @ [5, 6 :: dsa_pointer])"
    by simp
  have 4: "\<forall>n\<in>set [5, 6]. dsap (arena ex_shmem n) = n \<and> flag (arena ex_shmem n) = VL_WINNER"
    by (simp add: ex_shmem_def ex_arena_def node_def)
  have 5: "flag (arena ex_shmem (last (4 # []))) = VL_WINNER"
    by (simp add: ex_shmem_def ex_arena_def node_def)
  have 6: "\<not> lw_exclusive (locks ex_shmem (ex_part 9))"
    by (simp add: ex_shmem_def)
  from append_all_chain[where part_of = ex_part and alloc = ex_alloc and now = 0,
      OF 1 2 3 4 5 6]
  have "\<exists>s'. append_all ex_alloc 0 ex_part 9 [5, 6] ex_shmem = Some s' \<and>
         wf_chain (arena s') 4 [5, 6]"
    by auto
  with 1 2 3 4 5 6 show ?thesis by simp
qed

text \<open>
  Two calls for the key 9, whose chain is empty, that overlap: the second appender reads
  the tail and pauses, the first one runs from entry to return, then the second one goes
  on. Its exchange captures the idle flag, no assertion fails, both calls return, and the
  chain holds the locator 6 only: the locator 5 is lost.
\<close>

theorem append_overlap_counterexample:
  "sched_outcome ex_alloc 0 [1, 1, 1, 1, 0, 0, 0, 0, 0, 0, 0, 0, 0, 0, 1, 1, 1, 1, 1, 1]
     ex_two_appenders 4 =
     Some ([PC_done, PC_done], [VL_APPEND, VL_APPEND], [6])"
  by code_simp


end
